theory Spec2Isabelle
  imports Complex_Main
begin

section \<open>Data model\<close>

text \<open>
  A point is a tuple of coordinates, a layer a list of points. Python floats are modelled
  as exact reals: rounding of the distance computation is not part of the model.
  Indices are natural numbers (the source only ever produces non-negative ones).
\<close>

type_synonym point = "real list"
type_synonym layer = "point list"

datatype error = ValueError | IndexError

definition bind_err :: "error + 'a \<Rightarrow> ('a \<Rightarrow> error + 'b) \<Rightarrow> error + 'b" where
  "bind_err x f = (case x of Inl e \<Rightarrow> Inl e | Inr v \<Rightarrow> f v)"

definition nth_err :: "'a list \<Rightarrow> nat \<Rightarrow> error + 'a" where
  "nth_err xs i = (if i < length xs then Inr (xs ! i) else Inl IndexError)"

subsection \<open>The spatial index\<close>

text \<open>
  \<^verbatim>\<open>scipy.spatial.KDTree\<close> is a library class; the model follows what the library does
  on the calls the source makes (Euclidean metric, no approximation).

  The constructor wants an array of shape (n, m) with m at least 1. It raises on an empty
  list (the source guards against that), on rows of different lengths (\<open>ValueError\<close>) and
  on rows of length 0 (\<open>IndexError\<close>). It records the smallest and the largest value of
  every coordinate.
\<close>

datatype kdtree = Tree (tree_data: "point list") (tree_m: nat)

definition KDTree :: "layer \<Rightarrow> error + kdtree" where
  "KDTree pts =
     (case pts of
        [] \<Rightarrow> Inl ValueError
      | p # ps \<Rightarrow>
          if \<not> list_all (\<lambda>q. length q = length p) ps then Inl ValueError
          else if length p = 0 then Inl IndexError
          else Inr (Tree pts (length p)))"

definition mins :: "point list \<Rightarrow> point" where
  "mins pts = fold (\<lambda>p acc. map2 min acc p) (tl pts) (hd pts)"

definition maxes :: "point list \<Rightarrow> point" where
  "maxes pts = fold (\<lambda>p acc. map2 max acc p) (tl pts) (hd pts)"

text \<open>
  \<^verbatim>\<open>query_ball_tree(other, r)\<close> raises \<open>ValueError\<close> when the two trees have different
  dimensionality. It then bounds the distance of any two points by the largest squared
  distance between the bounding boxes of the two trees, and raises \<open>ValueError\<close> when that
  bound overflows to infinity in double precision; the model places the overflow where
  the exact value reaches \<open>2 ^ 1024\<close>. Neither test looks at the radius.

  Otherwise it returns, for each point of the tree, the indices of the points of
  \<^verbatim>\<open>other\<close> within the radius. The library works with squares: a point matches when its
  squared distance is at most \<open>r * r\<close>, so a negative radius matches what its absolute
  value matches (\<open>in_radius_sqrt\<close> below). The library leaves the order of the indices in one
  result list open; the model lists them in increasing order. The two points have the
  same length wherever the test is reached. Coordinates are exact reals: where double
  precision rounds a squared distance or a squared radius, the model does not.
\<close>

definition rect_max_distance_sq :: "point list \<Rightarrow> point list \<Rightarrow> real" where
  "rect_max_distance_sq a b =
     sum_list (map (\<lambda>k. (max (maxes a ! k - mins b ! k) (maxes b ! k - mins a ! k))\<^sup>2)
       [0..<length (hd a)])"

definition overflows :: "point list \<Rightarrow> point list \<Rightarrow> bool" where
  "overflows a b = (2 ^ 1024 \<le> rect_max_distance_sq a b)"

definition minkowski_distance_sq :: "point \<Rightarrow> point \<Rightarrow> real" where
  "minkowski_distance_sq p q = sum_list (map (\<lambda>(a, b). (a - b)\<^sup>2) (zip p q))"

definition in_radius :: "real \<Rightarrow> point \<Rightarrow> point \<Rightarrow> bool" where
  "in_radius r p q = (minkowski_distance_sq p q \<le> r * r)"

definition ball_idx :: "real \<Rightarrow> point \<Rightarrow> point list \<Rightarrow> nat list" where
  "ball_idx r p pts = filter (\<lambda>j. in_radius r p (pts ! j)) [0..<length pts]"

definition query_ball_tree :: "kdtree \<Rightarrow> kdtree \<Rightarrow> real \<Rightarrow> error + nat list list" where
  "query_ball_tree t other r =
     (if tree_m t \<noteq> tree_m other then Inl ValueError
      else if overflows (tree_data t) (tree_data other) then Inl ValueError
      else Inr (map (\<lambda>p. ball_idx r p (tree_data other)) (tree_data t)))"

subsection \<open>Shifting local indices to global ones\<close>

text \<open>
  \<^verbatim>\<open>_shift_idx\<close> walks over the positions of its argument and replaces each inner list
  by the shifted one.
\<close>

definition shift_idx :: "nat list list \<Rightarrow> nat \<Rightarrow> nat list list" where
  "shift_idx match_ij start_idx =
     fold (\<lambda>i m. m[i := map (\<lambda>match_idx. match_idx + start_idx) (m ! i)])
       [0..<length match_ij] match_ij"

subsection \<open>The clustering object\<close>

record MultiLayerCluster =
  layers :: "layer list"
  match_all_layers :: "nat list list"
  layers_combined :: "point list"
  layer_start_idx :: "nat list"
  layers_tree :: "kdtree option list"
  num_layers :: nat

text \<open>
  One round of the constructor's loop over the layers. The constructor keeps the caller's
  list of layers as it is (\<^verbatim>\<open>self.layers = layers\<close>); the model takes it by value, so a
  caller that changes the list afterwards is outside the model.
\<close>

definition init_step :: "layer \<Rightarrow> MultiLayerCluster \<Rightarrow> error + MultiLayerCluster" where
  "init_step layer s =
     (let s1 = s\<lparr>layer_start_idx := layer_start_idx s @ [length (layers_combined s)]\<rparr> in
      if length layer > 0 then
        bind_err (KDTree layer) (\<lambda>t.
          Inr (s1\<lparr>layers_tree := layers_tree s1 @ [Some t],
                  layers_combined := layers_combined s1 @ layer\<rparr>))
      else
        Inr (s1\<lparr>layers_tree := layers_tree s1 @ [None],
                layers_combined := layers_combined s1 @ layer\<rparr>))"

fun init_loop :: "layer list \<Rightarrow> MultiLayerCluster \<Rightarrow> error + MultiLayerCluster" where
  "init_loop [] s = Inr s"
| "init_loop (layer # rest) s =
     (case init_step layer s of Inl e \<Rightarrow> Inl e | Inr s' \<Rightarrow> init_loop rest s')"

definition init :: "layer list \<Rightarrow> error + MultiLayerCluster" where
  "init ls =
     init_loop ls
       \<lparr>layers = ls, match_all_layers = [], layers_combined = [], layer_start_idx = [],
        layers_tree = [], num_layers = length ls\<rparr>"

text \<open>
  The list comprehension \<^verbatim>\<open>[match_i[k] + match_ij[k] for k in range(n)]\<close>; it raises when
  one of the lists is shorter than n.
\<close>

definition concat_rows :: "nat \<Rightarrow> nat list list \<Rightarrow> nat list list \<Rightarrow> error + nat list list" where
  "concat_rows n match_i match_ij =
     (if n \<le> length match_i \<and> n \<le> length match_ij
      then Inr (map (\<lambda>k. match_i ! k @ match_ij ! k) [0..<n])
      else Inl IndexError)"

text \<open>The loop over the later layers j, for a layer i that has an index.\<close>

fun cross_loop ::
  "MultiLayerCluster \<Rightarrow> real \<Rightarrow> nat \<Rightarrow> kdtree \<Rightarrow> nat list \<Rightarrow> nat list list \<Rightarrow> error + nat list list"
where
  "cross_loop s other_r i tree_i [] match_i = Inr match_i"
| "cross_loop s other_r i tree_i (j # js) match_i =
     bind_err (nth_err (layers_tree s) j) (\<lambda>tree_j.
     bind_err
       (case tree_j of
          Some tj \<Rightarrow> query_ball_tree tree_i tj other_r
        | None \<Rightarrow>
            bind_err (nth_err (layers s) i) (\<lambda>layer_i. Inr (replicate (length layer_i) [])))
       (\<lambda>match_ij.
     bind_err (nth_err (layer_start_idx s) j) (\<lambda>start_j.
     bind_err (nth_err (layers s) i) (\<lambda>layer_i.
     bind_err (concat_rows (length layer_i) match_i (shift_idx match_ij start_j)) (\<lambda>match_i'.
       cross_loop s other_r i tree_i js match_i')))))"

text \<open>
  The body of the loop over the layers i: the rows that layer i contributes. The test
  \<^verbatim>\<open>if tree_i:\<close> separates an index from \<^verbatim>\<open>None\<close>: an index object is always true.
\<close>

definition layer_match :: "MultiLayerCluster \<Rightarrow> real \<Rightarrow> real \<Rightarrow> nat \<Rightarrow> error + nat list list" where
  "layer_match s self_r other_r i =
     bind_err (nth_err (layers_tree s) i) (\<lambda>tree_i.
       case tree_i of
         Some ti \<Rightarrow>
           bind_err (query_ball_tree ti ti self_r) (\<lambda>match_ii.
           bind_err (nth_err (layer_start_idx s) i) (\<lambda>start_i.
             cross_loop s other_r i ti [i + 1..<num_layers s] (shift_idx match_ii start_i)))
       | None \<Rightarrow> Inr [])"

fun layers_loop ::
  "real \<Rightarrow> real \<Rightarrow> nat list \<Rightarrow> MultiLayerCluster \<Rightarrow> error + MultiLayerCluster"
where
  "layers_loop self_r other_r [] s = Inr s"
| "layers_loop self_r other_r (i # rest) s =
     (case layer_match s self_r other_r i of
        Inl e \<Rightarrow> Inl e
      | Inr match_i \<Rightarrow>
          layers_loop self_r other_r rest
            (s\<lparr>match_all_layers := match_all_layers s @ match_i\<rparr>))"

text \<open>
  A method returns its result together with the object after the call; an exception is
  \<open>Inl\<close>, and the state an exception leaves behind is not kept. The result is the value
  of the match list at the return.
\<close>

definition cluster_all_layers ::
  "MultiLayerCluster \<Rightarrow> real \<Rightarrow> real \<Rightarrow> error + (nat list list \<times> MultiLayerCluster)"
where
  "cluster_all_layers s self_r other_r =
     bind_err (layers_loop self_r other_r [0..<num_layers s] s) (\<lambda>s'.
       Inr (match_all_layers s', s'))"

subsection \<open>Union-find\<close>

text \<open>
  Modelled from the spec: the class \<^verbatim>\<open>UnionFind\<close> of the module
  \<^verbatim>\<open>data_structures.union_find\<close>, which the clustering code imports. The spec fixes
  the observable contract only: a universe of size n that starts as singletons; union
  merges the sets of its two arguments; find returns the canonical representative;
  \<^verbatim>\<open>list_unions\<close> maps every root to the increasing list of the indices with that
  root. The model keeps, for every index, its representative (a parent array in which
  every entry already points to its root), and union relinks the members of one set to
  the root of the other. The spec gives union and find no meaning outside the universe;
  the model reports that as \<open>IndexError\<close>.
\<close>

type_synonym union_find = "nat list"

text \<open>Modelled from the spec: the constructor, every index its own singleton set.\<close>

definition UnionFind :: "nat \<Rightarrow> union_find" where
  "UnionFind n = [0..<n]"

text \<open>Modelled from the spec: \<^verbatim>\<open>find(a)\<close>, the canonical representative of the set of a.\<close>

definition uf_find :: "union_find \<Rightarrow> nat \<Rightarrow> error + nat" where
  "uf_find uf a = nth_err uf a"

text \<open>
  Modelled from the spec: \<^verbatim>\<open>union(a, b)\<close>, which merges the sets of a and b; nothing
  changes when they are the same set.
\<close>

definition uf_union :: "union_find \<Rightarrow> nat \<Rightarrow> nat \<Rightarrow> error + union_find" where
  "uf_union uf a b =
     bind_err (uf_find uf a) (\<lambda>ra.
     bind_err (uf_find uf b) (\<lambda>rb.
       Inr (map (\<lambda>r. if r = ra then rb else r) uf)))"

text \<open>
  Modelled from the spec: \<^verbatim>\<open>list_unions()\<close>, a dictionary from every root to the indices
  with that root, in increasing order. The dictionary is an association list with
  pairwise different keys.
\<close>

definition list_unions :: "union_find \<Rightarrow> (nat \<times> nat list) list" where
  "list_unions uf =
     map (\<lambda>r. (r, filter (\<lambda>i. uf ! i = r) [0..<length uf])) (remdups uf)"

subsection \<open>Compressing the matches\<close>

text \<open>The inner loop \<^verbatim>\<open>for j in connect: uf.union(i, j)\<close>.\<close>

fun union_row :: "nat \<Rightarrow> nat list \<Rightarrow> union_find \<Rightarrow> error + union_find" where
  "union_row i [] uf = Inr uf"
| "union_row i (j # connect) uf = bind_err (uf_union uf i j) (union_row i connect)"

text \<open>The outer loop over \<^verbatim>\<open>enumerate(self.match_all_layers)\<close>.\<close>

fun union_rows :: "(nat \<times> nat list) list \<Rightarrow> union_find \<Rightarrow> error + union_find" where
  "union_rows [] uf = Inr uf"
| "union_rows ((i, connect) # rest) uf = bind_err (union_row i connect uf) (union_rows rest)"

definition compress_match ::
  "MultiLayerCluster \<Rightarrow> error + ((nat \<times> nat list) list \<times> MultiLayerCluster)"
where
  "compress_match s =
     bind_err
       (union_rows (enumerate 0 (match_all_layers s))
          (UnionFind (length (match_all_layers s))))
       (\<lambda>uf. Inr (list_unions uf, s))"

text \<open>
  The script at the end of the module: construct, cluster once, compress. The first
  function returns the adjacency list, the second the clusters.
\<close>

definition run_cluster :: "layer list \<Rightarrow> real \<Rightarrow> real \<Rightarrow> error + nat list list" where
  "run_cluster ls cluster_r dsa_r =
     bind_err (init ls) (\<lambda>dsa.
     bind_err (cluster_all_layers dsa cluster_r dsa_r) (\<lambda>(result, dsa'). Inr result))"

definition run_main :: "layer list \<Rightarrow> real \<Rightarrow> real \<Rightarrow> error + (nat \<times> nat list) list" where
  "run_main ls cluster_r dsa_r =
     bind_err (init ls) (\<lambda>dsa.
     bind_err (cluster_all_layers dsa cluster_r dsa_r) (\<lambda>(result, dsa').
     bind_err (compress_match dsa') (\<lambda>(clusters, dsa''). Inr clusters)))"

section \<open>What the loops compute\<close>

text \<open>
  Closed forms of the constructor's and the clustering loop's results, used to state and
  prove the properties below: the offset of a layer, the index the constructor keeps for
  it, the row of neighbours of the k-th point of layer i, the layers the constructor
  accepts, and the condition under which no query raises.
\<close>

definition uniform :: "layer \<Rightarrow> bool" where
  "uniform l = (case l of [] \<Rightarrow> True | p # ps \<Rightarrow> list_all (\<lambda>q. length q = length p) ps)"

definition dim_of :: "layer \<Rightarrow> nat" where
  "dim_of l = length (hd l)"

definition accepted :: "layer \<Rightarrow> bool" where
  "accepted l = (l = [] \<or> (uniform l \<and> 0 < dim_of l))"

fun reject_error :: "layer list \<Rightarrow> error" where
  "reject_error [] = ValueError"
| "reject_error (l # ls) =
     (if accepted l then reject_error ls else if uniform l then IndexError else ValueError)"

definition tree_of :: "layer \<Rightarrow> kdtree option" where
  "tree_of l = (if l = [] then None else Some (Tree l (length (hd l))))"

definition start_of :: "layer list \<Rightarrow> nat \<Rightarrow> nat" where
  "start_of ls i = length (concat (take i ls))"

definition built :: "layer list \<Rightarrow> MultiLayerCluster \<Rightarrow> bool" where
  "built ls s =
     (layers s = ls \<and> layers_combined s = concat ls \<and>
      layer_start_idx s = map (start_of ls) [0..<length ls] \<and>
      layers_tree s = map tree_of ls \<and> num_layers s = length ls)"

definition query_ok :: "layer \<Rightarrow> layer \<Rightarrow> bool" where
  "query_ok l l' = (dim_of l' = dim_of l \<and> \<not> overflows l l')"

definition cross_row :: "layer list \<Rightarrow> real \<Rightarrow> point \<Rightarrow> nat list \<Rightarrow> nat list" where
  "cross_row ls r p js =
     concat (map (\<lambda>j. map (\<lambda>x. x + start_of ls j) (ball_idx r p (ls ! j))) js)"

definition dims_agree :: "layer list \<Rightarrow> nat \<Rightarrow> nat list \<Rightarrow> bool" where
  "dims_agree ls i js = list_all (\<lambda>j. ls ! j = [] \<or> query_ok (ls ! i) (ls ! j)) js"

definition row :: "layer list \<Rightarrow> real \<Rightarrow> real \<Rightarrow> nat \<Rightarrow> nat \<Rightarrow> nat list" where
  "row ls r1 r2 i k =
     map (\<lambda>x. x + start_of ls i) (ball_idx r1 (ls ! i ! k) (ls ! i)) @
     cross_row ls r2 (ls ! i ! k) [i + 1..<length ls]"

definition layer_rows :: "layer list \<Rightarrow> real \<Rightarrow> real \<Rightarrow> nat \<Rightarrow> nat list list" where
  "layer_rows ls r1 r2 i = map (row ls r1 r2 i) [0..<length (ls ! i)]"

definition adjacency :: "layer list \<Rightarrow> real \<Rightarrow> real \<Rightarrow> nat list list" where
  "adjacency ls r1 r2 = concat (map (layer_rows ls r1 r2) [0..<length ls])"

definition layer_ok :: "layer list \<Rightarrow> nat \<Rightarrow> bool" where
  "layer_ok ls i =
     (ls ! i = [] \<or> (query_ok (ls ! i) (ls ! i) \<and> dims_agree ls i [i + 1..<length ls]))"

definition dims_ok :: "layer list \<Rightarrow> bool" where
  "dims_ok ls = list_all (layer_ok ls) [0..<length ls]"

subsection \<open>What the union loops compute\<close>

text \<open>
  One union inside the universe relinks a set (\<open>link\<close>); the two loops of
  \<^verbatim>\<open>compress_match\<close> are a fold of \<open>link\<close> over the edges (i, j) of the adjacency
  list in row order.
\<close>

definition link :: "union_find \<Rightarrow> nat \<Rightarrow> nat \<Rightarrow> union_find" where
  "link uf a b = map (\<lambda>r. if r = uf ! a then uf ! b else r) uf"

definition links :: "(nat \<times> nat) list \<Rightarrow> union_find \<Rightarrow> union_find" where
  "links es uf = fold (\<lambda>(a, b) u. link u a b) es uf"

definition edges_of :: "(nat \<times> nat list) list \<Rightarrow> (nat \<times> nat) list" where
  "edges_of rows = concat (map (\<lambda>(i, connect). map (Pair i) connect) rows)"

definition components :: "nat list list \<Rightarrow> union_find" where
  "components adj = links (edges_of (enumerate 0 adj)) (UnionFind (length adj))"

definition valid_adj :: "nat list list \<Rightarrow> bool" where
  "valid_adj adj = list_all (list_all (\<lambda>x. x < length adj)) adj"

subsection \<open>The closed forms again, by recursion over the list of layers\<close>

fun cross_from :: "real \<Rightarrow> point \<Rightarrow> nat \<Rightarrow> layer list \<Rightarrow> nat list" where
  "cross_from r p off [] = []"
| "cross_from r p off (l # rest) =
     map (\<lambda>x. x + off) (ball_idx r p l) @ cross_from r p (off + length l) rest"

fun adj_from :: "real \<Rightarrow> real \<Rightarrow> nat \<Rightarrow> layer list \<Rightarrow> nat list list" where
  "adj_from r1 r2 off [] = []"
| "adj_from r1 r2 off (l # rest) =
     map (\<lambda>p. map (\<lambda>x. x + off) (ball_idx r1 p l) @ cross_from r2 p (off + length l) rest) l @
     adj_from r1 r2 (off + length l) rest"

fun dims_ok_from :: "layer list \<Rightarrow> bool" where
  "dims_ok_from [] = True"
| "dims_ok_from (l # rest) =
     ((l = [] \<or> (query_ok l l \<and> list_all (\<lambda>l'. l' = [] \<or> query_ok l l') rest)) \<and>
      dims_ok_from rest)"

subsection \<open>A small input\<close>

text \<open>
  Three layers, the middle one empty, clustered with both radii 1: the point of the first
  layer matches the second point of the last layer, the first point of the last layer
  matches nothing but itself.
\<close>

definition example_layers :: "layer list" where
  "example_layers = [[[0, 0]], [], [[1, 1], [0, 1 / 2]]]"

definition example_state :: MultiLayerCluster where
  "example_state = projr (init example_layers)"

definition example_adj :: "nat list list" where
  "example_adj = [[0, 2], [1], [2]]"

definition example_state1 :: MultiLayerCluster where
  "example_state1 = example_state\<lparr>match_all_layers := example_adj\<rparr>"

definition example_state2 :: MultiLayerCluster where
  "example_state2 = example_state\<lparr>match_all_layers := example_adj @ example_adj\<rparr>"

text \<open>The layers of the script at the end of the module.\<close>

definition scenario_layers :: "layer list" where
  "scenario_layers =
     [[[1, 1], [2, 2], [3, 3]],
      [[11 / 10, 11 / 10], [9 / 10, 9 / 10], [21 / 10, 21 / 10], [32 / 10, 32 / 10]],
      [],
      [[115 / 100, 115 / 100], [31 / 10, 31 / 10]]]"

text \<open>A layer of one 2-dimensional point and a layer of one 3-dimensional point.\<close>

definition mixed_layers :: "layer list" where
  "mixed_layers = [[[0, 0]], [[0, 0, 0]]]"

text \<open>
  One layer of two 1-dimensional points whose distance squared is beyond double
  precision, and one layer of two points without coordinates.
\<close>

definition huge_layers :: "layer list" where
  "huge_layers = [[[0], [2 ^ 600]]]"

definition zero_dim_layers :: "layer list" where
  "zero_dim_layers = [[[], []]]"



section \<open>The loops meet their closed forms\<close>

subsection \<open>Errors\<close>

lemma bind_err_simps [simp]:
  "bind_err (Inl e) f = Inl e" "bind_err (Inr v) f = f v"
  by (simp_all add: bind_err_def)

subsection \<open>The overflow test, for evaluation\<close>

text \<open>
  The bound \<open>2 ^ 1024\<close> is reached by ten squarings, and not at all when the distance is
  below \<open>2 ^ 16\<close>.
\<close>

lemma overflows_code [code]:
  "overflows a b =
     (let d = rect_max_distance_sq a b
      in if d < 65536 then False
         else ((((((((((2\<^sup>2)\<^sup>2)\<^sup>2)\<^sup>2)\<^sup>2)\<^sup>2)\<^sup>2)\<^sup>2)\<^sup>2)\<^sup>2) \<le> d)"
proof -
  have sq: "((((((((((2\<^sup>2)\<^sup>2)\<^sup>2)\<^sup>2)\<^sup>2)\<^sup>2)\<^sup>2)\<^sup>2)\<^sup>2)\<^sup>2) = (2 :: real) ^ 1024"
    unfolding power_mult [symmetric] by simp
  have "(2 :: real) ^ 16 \<le> 2 ^ 1024" by (rule power_increasing) simp_all
  then have le: "(65536 :: real) \<le> 2 ^ 1024" by simp
  show ?thesis
  proof (cases "rect_max_distance_sq a b < 65536")
    case True
    from less_le_trans [OF True le] have "\<not> 2 ^ 1024 \<le> rect_max_distance_sq a b"
      by (simp only: not_le)
    with True show ?thesis by (simp only: overflows_def Let_def if_True)
  next
    case False
    then show ?thesis by (simp only: overflows_def Let_def if_False sq)
  qed
qed

subsection \<open>The shift is a map\<close>

lemma shift_fold_aux:
  "k \<le> length m \<Longrightarrow>
   fold (\<lambda>i m. m[i := f (m ! i)]) [0..<k] m = map f (take k m) @ drop k m"
proof (induction k)
  case 0
  then show ?case by simp
next
  case (Suc k)
  then have k: "k < length m" by simp
  have "fold (\<lambda>i m. m[i := f (m ! i)]) [0..<Suc k] m
      = (map f (take k m) @ drop k m)[k := f ((map f (take k m) @ drop k m) ! k)]"
    using Suc by simp
  also have "(map f (take k m) @ drop k m) ! k = m ! k"
    using k by (simp add: nth_append)
  also have "(map f (take k m) @ drop k m)[k := f (m ! k)]
      = map f (take k m) @ (drop k m)[0 := f (m ! k)]"
    using k by (simp add: list_update_append)
  also have "(drop k m)[0 := f (m ! k)] = f (m ! k) # drop (Suc k) m"
    using k by (simp add: Cons_nth_drop_Suc [symmetric])
  finally show ?case
    using k by (simp add: take_Suc_conv_app_nth)
qed

lemma shift_idx_map: "shift_idx m a = map (map (\<lambda>x. x + a)) m"
  unfolding shift_idx_def using shift_fold_aux [of "length m" m] by simp

subsection \<open>The constructor\<close>

lemma init_step_eq:
  "init_step l s =
     (if accepted l
      then Inr (s\<lparr>layer_start_idx := layer_start_idx s @ [length (layers_combined s)],
                   layers_tree := layers_tree s @ [tree_of l],
                   layers_combined := layers_combined s @ l\<rparr>)
      else Inl (if uniform l then IndexError else ValueError))"
proof (cases l)
  case Nil
  then show ?thesis
    by (simp add: init_step_def accepted_def tree_of_def)
next
  case (Cons p ps)
  show ?thesis
  proof (cases "p = []")
    case True
    with Cons show ?thesis
      by (simp add: init_step_def KDTree_def accepted_def uniform_def dim_of_def)
  next
    case False
    with Cons show ?thesis
      by (simp add: init_step_def KDTree_def accepted_def uniform_def dim_of_def tree_of_def)
  qed
qed

lemma init_loop_eq:
  "init_loop rest s =
     (if list_all accepted rest
      then Inr (s\<lparr>layer_start_idx :=
                     layer_start_idx s @
                     map (\<lambda>i. length (layers_combined s) + length (concat (take i rest)))
                       [0..<length rest],
                   layers_tree := layers_tree s @ map tree_of rest,
                   layers_combined := layers_combined s @ concat rest\<rparr>)
      else Inl (reject_error rest))"
proof (induction rest arbitrary: s)
  case Nil
  then show ?case by simp
next
  case (Cons l rest)
  have upt: "[0..<Suc (length rest)] = 0 # map Suc [0..<length rest]"
    by (simp add: upt_conv_Cons map_Suc_upt del: upt_Suc)
  show ?case
    by (simp add: init_step_eq Cons.IH upt comp_def add.assoc del: upt_Suc)
qed

lemma init_eq:
  "init ls =
     (if list_all accepted ls
      then Inr \<lparr>layers = ls, match_all_layers = [], layers_combined = concat ls,
                layer_start_idx = map (start_of ls) [0..<length ls],
                layers_tree = map tree_of ls, num_layers = length ls\<rparr>
      else Inl (reject_error ls))"
  by (simp add: init_def init_loop_eq start_of_def)

lemma init_built: "init ls = Inr s \<Longrightarrow> built ls s \<and> match_all_layers s = []"
  by (auto simp: init_eq built_def split: if_splits)

subsection \<open>The clustering loops\<close>

lemma built_tree: "built ls s \<Longrightarrow> j < length ls \<Longrightarrow> nth_err (layers_tree s) j = Inr (tree_of (ls ! j))"
  by (simp add: built_def nth_err_def)

lemma built_start: "built ls s \<Longrightarrow> j < length ls \<Longrightarrow> nth_err (layer_start_idx s) j = Inr (start_of ls j)"
  by (simp add: built_def nth_err_def)

lemma built_layer: "built ls s \<Longrightarrow> j < length ls \<Longrightarrow> nth_err (layers s) j = Inr (ls ! j)"
  by (simp add: built_def nth_err_def)

lemma ball_idx_Nil [simp]: "ball_idx r p [] = []"
  by (simp add: ball_idx_def)

lemma cross_step:
  assumes "built ls s" "i < length ls" "j < length ls" "length m = length (ls ! i)"
  shows "bind_err (nth_err (layers_tree s) j) (\<lambda>tree_j.
     bind_err
       (case tree_j of
          Some tj \<Rightarrow> query_ball_tree (Tree (ls ! i) (dim_of (ls ! i))) tj r
        | None \<Rightarrow>
            bind_err (nth_err (layers s) i) (\<lambda>layer_i. Inr (replicate (length layer_i) [])))
       (\<lambda>match_ij.
     bind_err (nth_err (layer_start_idx s) j) (\<lambda>start_j.
     bind_err (nth_err (layers s) i) (\<lambda>layer_i.
     bind_err (concat_rows (length layer_i) m (shift_idx match_ij start_j)) f))))
   = (if ls ! j = [] \<or> query_ok (ls ! i) (ls ! j)
      then f (map (\<lambda>k. m ! k @ map (\<lambda>x. x + start_of ls j) (ball_idx r (ls ! i ! k) (ls ! j)))
                [0..<length (ls ! i)])
      else Inl ValueError)"
proof (cases "ls ! j = []")
  case True
  have eq: "map (\<lambda>k. m ! k @ replicate (length (ls ! i)) [] ! k) [0..<length (ls ! i)]
      = map ((!) m) [0..<length (ls ! i)]"
    by (rule map_cong) simp_all
  from True assms show ?thesis
    apply (simp add: built_tree built_start built_layer tree_of_def shift_idx_map concat_rows_def)
    apply (simp only: eq)
    done
next
  case False
  have eq: "map (\<lambda>k. m ! k @ map (map (\<lambda>x. x + start_of ls j) \<circ> (\<lambda>p. ball_idx r p (ls ! j)))
                     (ls ! i) ! k) [0..<length (ls ! i)]
      = map (\<lambda>k. m ! k @ map (\<lambda>x. x + start_of ls j) (ball_idx r (ls ! i ! k) (ls ! j)))
          [0..<length (ls ! i)]"
    by (rule map_cong) simp_all
  from False assms show ?thesis
    apply (simp add: built_tree built_start built_layer tree_of_def shift_idx_map concat_rows_def
        query_ball_tree_def dim_of_def query_ok_def)
    apply (simp only: eq)
    apply simp
    done
qed

lemma cross_loop_eq:
  assumes "built ls s" "i < length ls"
  shows "list_all (\<lambda>j. j < length ls) js \<Longrightarrow> length m = length (ls ! i) \<Longrightarrow>
     cross_loop s r i (Tree (ls ! i) (dim_of (ls ! i))) js m =
       (if dims_agree ls i js
        then Inr (map (\<lambda>k. m ! k @ cross_row ls r (ls ! i ! k) js) [0..<length (ls ! i)])
        else Inl ValueError)"
proof (induction js arbitrary: m)
  case Nil
  then show ?case
    using map_nth [of m] by (simp add: dims_agree_def cross_row_def)
next
  case (Cons j js)
  from Cons.prems have j: "j < length ls" and js: "list_all (\<lambda>j. j < length ls) js"
    by simp_all
  let ?m' = "map (\<lambda>k. m ! k @ map (\<lambda>x. x + start_of ls j) (ball_idx r (ls ! i ! k) (ls ! j)))
                [0..<length (ls ! i)]"
  have len: "length ?m' = length (ls ! i)" by simp
  have rows: "map (\<lambda>k. ?m' ! k @ cross_row ls r (ls ! i ! k) js) [0..<length (ls ! i)]
      = map (\<lambda>k. m ! k @ cross_row ls r (ls ! i ! k) (j # js)) [0..<length (ls ! i)]"
    by (rule map_cong) (simp_all add: cross_row_def)
  show ?case
    unfolding cross_loop.simps
    by (simp add: cross_step [OF assms j Cons.prems(2)] Cons.IH [OF js len] rows
        dims_agree_def del: upt_Suc)
qed

lemma built_update [simp]: "built ls (s\<lparr>match_all_layers := m\<rparr>) = built ls s"
  by (simp add: built_def)

lemma layer_match_eq:
  assumes "built ls s" "i < length ls"
  shows "layer_match s r1 r2 i =
     (if layer_ok ls i then Inr (layer_rows ls r1 r2 i) else Inl ValueError)"
proof (cases "ls ! i = []")
  case True
  with assms show ?thesis
    by (simp add: layer_match_def built_tree tree_of_def layer_ok_def layer_rows_def)
next
  case False
  let ?m = "map (map (\<lambda>x. x + start_of ls i)) (map (\<lambda>p. ball_idx r1 p (ls ! i)) (ls ! i))"
  have js: "list_all (\<lambda>j. j < length ls) [i + 1..<length ls]"
    by (simp add: list_all_iff)
  have len: "length ?m = length (ls ! i)" by simp
  have rows: "map (\<lambda>k. ?m ! k @ cross_row ls r2 (ls ! i ! k) [i + 1..<length ls])
                [0..<length (ls ! i)] = layer_rows ls r1 r2 i"
    unfolding layer_rows_def by (rule map_cong) (simp_all add: row_def)
  have "layer_match s r1 r2 i =
      (if query_ok (ls ! i) (ls ! i)
       then cross_loop s r2 i (Tree (ls ! i) (dim_of (ls ! i))) [i + 1..<length ls] ?m
       else Inl ValueError)"
  proof -
    have t: "nth_err (layers_tree s) i = Inr (Some (Tree (ls ! i) (dim_of (ls ! i))))"
      using assms False by (simp add: built_tree tree_of_def dim_of_def)
    have st: "nth_err (layer_start_idx s) i = Inr (start_of ls i)"
      using assms by (simp add: built_start)
    have n: "num_layers s = length ls"
      using assms by (simp add: built_def)
    show ?thesis
      by (simp add: layer_match_def t st n query_ball_tree_def shift_idx_map query_ok_def)
  qed
  also have "\<dots> = (if query_ok (ls ! i) (ls ! i) \<and> dims_agree ls i [i + 1..<length ls]
        then Inr (layer_rows ls r1 r2 i) else Inl ValueError)"
    unfolding cross_loop_eq [OF assms js len] rows by simp
  finally show ?thesis
    using False by (simp add: layer_ok_def)
qed

lemma layers_loop_eq:
  "built ls s \<Longrightarrow> list_all (\<lambda>i. i < length ls) idxs \<Longrightarrow>
   layers_loop r1 r2 idxs s =
     (if list_all (layer_ok ls) idxs
      then Inr (s\<lparr>match_all_layers :=
                     match_all_layers s @ concat (map (layer_rows ls r1 r2) idxs)\<rparr>)
      else Inl ValueError)"
proof (induction idxs arbitrary: s)
  case Nil
  then show ?case by simp
next
  case (Cons i idxs)
  then show ?case
    by (simp add: layer_match_eq)
qed

lemma cluster_all_layers_eq:
  assumes "built ls s"
  shows "cluster_all_layers s r1 r2 =
     (if dims_ok ls
      then Inr (match_all_layers s @ adjacency ls r1 r2,
                s\<lparr>match_all_layers := match_all_layers s @ adjacency ls r1 r2\<rparr>)
      else Inl ValueError)"
proof -
  have idx: "list_all (\<lambda>i. i < length ls) [0..<length ls]"
    by (simp add: list_all_iff)
  have n: "num_layers s = length ls"
    using assms by (simp add: built_def)
  show ?thesis
    unfolding cluster_all_layers_def n layers_loop_eq [OF assms idx]
    by (simp add: dims_ok_def adjacency_def)
qed

subsection \<open>Offsets and global indices\<close>

lemma start_of_Suc: "i < length ls \<Longrightarrow> start_of ls (Suc i) = start_of ls i + length (ls ! i)"
  by (simp add: start_of_def take_Suc_conv_app_nth)

lemma start_of_mono: "i \<le> j \<Longrightarrow> start_of ls i \<le> start_of ls j"
proof (induction j)
  case 0
  then show ?case by simp
next
  case (Suc j)
  show ?case
  proof (cases "i = Suc j")
    case True
    then show ?thesis by simp
  next
    case False
    with Suc have le: "start_of ls i \<le> start_of ls j" by simp
    show ?thesis
    proof (cases "j < length ls")
      case True
      with le show ?thesis by (simp add: start_of_Suc)
    next
      case False
      with le show ?thesis by (simp add: start_of_def)
    qed
  qed
qed

lemma start_of_total: "length ls \<le> i \<Longrightarrow> start_of ls i = length (concat ls)"
  by (simp add: start_of_def)

lemma start_of_end: "i < length ls \<Longrightarrow> start_of ls i + length (ls ! i) \<le> length (concat ls)"
  using start_of_mono [of "Suc i" "length ls" ls] by (simp add: start_of_Suc start_of_total)

lemma start_of_sum: "start_of ls i = sum_list (map length (take i ls))"
  by (simp add: start_of_def length_concat take_map)

lemma concat_nth:
  "i < length xss \<Longrightarrow> k < length (xss ! i) \<Longrightarrow>
   concat xss ! (length (concat (take i xss)) + k) = xss ! i ! k"
proof (induction xss arbitrary: i)
  case Nil
  then show ?case by simp
next
  case (Cons xs xss)
  show ?case
  proof (cases i)
    case 0
    with Cons.prems show ?thesis by (simp add: nth_append)
  next
    case (Suc i')
    with Cons.prems Cons.IH [of i'] show ?thesis by (simp add: nth_append)
  qed
qed

lemma concat_index:
  "g < length (concat xss) \<Longrightarrow>
   \<exists>i k. i < length xss \<and> k < length (xss ! i) \<and> g = length (concat (take i xss)) + k"
proof (induction xss arbitrary: g)
  case Nil
  then show ?case by simp
next
  case (Cons xs xss)
  show ?case
  proof (cases "g < length xs")
    case True
    then have "0 < length (xs # xss) \<and> g < length ((xs # xss) ! 0) \<and>
        g = length (concat (take 0 (xs # xss))) + g" by simp
    then show ?thesis by blast
  next
    case False
    with Cons.prems have "g - length xs < length (concat xss)" by simp
    from Cons.IH [OF this] obtain i k where
      ik: "i < length xss" "k < length (xss ! i)" "g - length xs = length (concat (take i xss)) + k"
      by blast
    with False have "Suc i < length (xs # xss) \<and> k < length ((xs # xss) ! Suc i) \<and>
        g = length (concat (take (Suc i) (xs # xss))) + k" by simp
    then show ?thesis by blast
  qed
qed

lemma length_layer_rows [simp]: "length (layer_rows ls r1 r2 i) = length (ls ! i)"
  by (simp add: layer_rows_def)

lemma adjacency_as_concat:
  "adjacency ls r1 r2 = concat (map (\<lambda>i. layer_rows ls r1 r2 i) [0..<length ls])"
  by (simp add: adjacency_def)

lemma map_length_rows:
  "map length (map (layer_rows ls r1 r2) [0..<length ls]) = map length ls"
  by (rule nth_equalityI) simp_all

lemma length_adjacency [simp]: "length (adjacency ls r1 r2) = length (concat ls)"
  by (simp add: adjacency_def length_concat map_length_rows del: map_map)

lemma take_rows:
  "i \<le> length ls \<Longrightarrow>
   length (concat (take i (map (layer_rows ls r1 r2) [0..<length ls]))) = start_of ls i"
proof -
  assume "i \<le> length ls"
  have "length (concat (take i (map (layer_rows ls r1 r2) [0..<length ls])))
      = sum_list (take i (map length (map (layer_rows ls r1 r2) [0..<length ls])))"
    by (simp add: length_concat take_map del: map_map)
  also have "\<dots> = sum_list (take i (map length ls))"
    by (simp only: map_length_rows)
  finally show ?thesis
    by (simp add: start_of_sum take_map)
qed

lemma adjacency_nth:
  assumes "i < length ls" "k < length (ls ! i)"
  shows "adjacency ls r1 r2 ! (start_of ls i + k) = row ls r1 r2 i k"
proof -
  let ?xss = "map (layer_rows ls r1 r2) [0..<length ls]"
  have "concat ?xss ! (length (concat (take i ?xss)) + k) = ?xss ! i ! k"
    by (rule concat_nth) (use assms in simp_all)
  then show ?thesis
    using assms by (simp add: adjacency_def take_rows layer_rows_def)
qed

lemma ball_idx_bound: "x \<in> set (ball_idx r p pts) \<Longrightarrow> x < length pts"
  by (simp add: ball_idx_def)

lemma cross_row_range:
  "x \<in> set (cross_row ls r p js) \<Longrightarrow>
   \<exists>j \<in> set js. start_of ls j \<le> x \<and> x < start_of ls j + length (ls ! j)"
proof -
  assume "x \<in> set (cross_row ls r p js)"
  then obtain j y where j: "j \<in> set js" and y: "y \<in> set (ball_idx r p (ls ! j))"
    and x: "x = y + start_of ls j"
    by (auto simp: cross_row_def)
  from y have "y < length (ls ! j)" by (rule ball_idx_bound)
  with x have "start_of ls j \<le> x \<and> x < start_of ls j + length (ls ! j)" by simp
  with j show ?thesis by blast
qed

subsection \<open>What the methods leave alone\<close>

lemma layers_loop_frame:
  "layers_loop r1 r2 idxs t = Inr t' \<Longrightarrow> \<exists>m. t' = t\<lparr>match_all_layers := m\<rparr>"
proof (induction idxs arbitrary: t)
  case Nil
  then have "t' = t\<lparr>match_all_layers := match_all_layers t\<rparr>" by simp
  then show ?case ..
next
  case (Cons i idxs)
  from Cons.prems obtain mi where
    rest: "layers_loop r1 r2 idxs (t\<lparr>match_all_layers := match_all_layers t @ mi\<rparr>) = Inr t'"
    by (auto split: sum.splits)
  from Cons.IH [OF rest] obtain m where
    "t' = t\<lparr>match_all_layers := match_all_layers t @ mi\<rparr>\<lparr>match_all_layers := m\<rparr>"
    ..
  then have "t' = t\<lparr>match_all_layers := m\<rparr>" by simp
  then show ?case ..
qed

lemma cluster_all_layers_frame:
  assumes "cluster_all_layers t r1 r2 = Inr (res, t')"
  shows "t' = t\<lparr>match_all_layers := res\<rparr>"
proof (cases "layers_loop r1 r2 [0..<num_layers t] t")
  case (Inl e)
  with assms show ?thesis by (simp add: cluster_all_layers_def)
next
  case (Inr u)
  with assms have r: "res = match_all_layers u \<and> t' = u"
    by (auto simp add: cluster_all_layers_def)
  from layers_loop_frame [OF Inr] obtain m where "u = t\<lparr>match_all_layers := m\<rparr>" ..
  with r show ?thesis by simp
qed

lemma compress_match_frame:
  assumes "compress_match t = Inr (cl, t')"
  shows "t' = t"
proof (cases "union_rows (enumerate 0 (match_all_layers t))
                (UnionFind (length (match_all_layers t)))")
  case (Inl e)
  with assms show ?thesis by (simp add: compress_match_def)
next
  case (Inr uf)
  with assms show ?thesis by (simp add: compress_match_def)
qed

lemma sorted_starts: "sorted (map (start_of ls) [0..<n])"
  by (simp add: sorted_iff_nth_mono start_of_mono)

lemma first_call:
  assumes "init ls = Inr s" "cluster_all_layers s r1 r2 = Inr (adj, s')"
  shows "dims_ok ls \<and> adj = adjacency ls r1 r2 \<and> s' = s\<lparr>match_all_layers := adj\<rparr> \<and>
         built ls s \<and> built ls s'"
proof -
  from init_built [OF assms(1)] have b: "built ls s" and m: "match_all_layers s = []"
    by simp_all
  from assms(2) have ok: "dims_ok ls"
    unfolding cluster_all_layers_eq [OF b] by (simp split: if_splits)
  with assms(2) have "adj = adjacency ls r1 r2 \<and> s' = s\<lparr>match_all_layers := adjacency ls r1 r2\<rparr>"
    unfolding cluster_all_layers_eq [OF b] by (auto simp: m)
  with ok b show ?thesis by simp
qed

lemma built_fields:
  assumes "built ls s"
  shows "layers_combined s = concat ls" "i < length ls \<Longrightarrow> layer_start_idx s ! i = start_of ls i"
  using assms by (simp_all add: built_def)

subsection \<open>The union loops\<close>

lemma length_link [simp]: "length (link uf a b) = length uf"
  by (simp add: link_def)

lemma length_links [simp]: "length (links es uf) = length uf"
  unfolding links_def by (induction es arbitrary: uf) auto

lemma links_Nil [simp]: "links [] uf = uf"
  by (simp add: links_def)

lemma links_Cons [simp]: "links ((a, b) # es) uf = links es (link uf a b)"
  by (simp add: links_def)

lemma links_append [simp]: "links (es @ fs) uf = links fs (links es uf)"
  by (simp add: links_def)

lemma uf_union_eq:
  "a < length uf \<Longrightarrow> b < length uf \<Longrightarrow> uf_union uf a b = Inr (link uf a b)"
  by (simp add: uf_union_def uf_find_def nth_err_def link_def)

lemma union_row_eq:
  "i < length uf \<Longrightarrow> list_all (\<lambda>j. j < length uf) js \<Longrightarrow>
   union_row i js uf = Inr (links (map (Pair i) js) uf)"
  by (induction js arbitrary: uf) (simp_all add: uf_union_eq)

lemma union_rows_eq:
  "list_all (\<lambda>(i, connect). i < length uf \<and> list_all (\<lambda>j. j < length uf) connect) rows \<Longrightarrow>
   union_rows rows uf = Inr (links (edges_of rows) uf)"
proof (induction rows arbitrary: uf)
  case Nil
  then show ?case by (simp add: edges_of_def)
next
  case (Cons row rows)
  obtain i connect where row: "row = (i, connect)" by (cases row)
  from Cons.prems have i: "i < length uf" and c: "list_all (\<lambda>j. j < length uf) connect"
    and rest: "list_all (\<lambda>(i, connect). i < length uf \<and> list_all (\<lambda>j. j < length uf) connect) rows"
    by (simp_all add: row)
  let ?uf = "links (map (Pair i) connect) uf"
  have "union_rows rows ?uf = Inr (links (edges_of rows) ?uf)"
    by (rule Cons.IH) (use rest in simp)
  then show ?case
    by (simp add: row union_row_eq [OF i c] edges_of_def)
qed

lemma enumerate_valid:
  assumes "valid_adj adj"
  shows "list_all (\<lambda>(i, connect). i < length adj \<and> list_all (\<lambda>j. j < length adj) connect)
           (enumerate 0 adj)"
  using assms
  by (auto simp: valid_adj_def list_all_iff in_set_enumerate_eq)

lemma compress_match_eq:
  assumes "valid_adj (match_all_layers s)"
  shows "compress_match s = Inr (list_unions (components (match_all_layers s)), s)"
proof -
  let ?adj = "match_all_layers s"
  have "union_rows (enumerate 0 ?adj) (UnionFind (length ?adj))
      = Inr (links (edges_of (enumerate 0 ?adj)) (UnionFind (length ?adj)))"
    by (rule union_rows_eq) (use enumerate_valid [OF assms] in \<open>simp add: UnionFind_def\<close>)
  then show ?thesis
    by (simp add: compress_match_def components_def)
qed

lemma edges_of_enumerate:
  "(a, b) \<in> set (edges_of (enumerate 0 adj)) \<longleftrightarrow> a < length adj \<and> b \<in> set (adj ! a)"
proof
  assume "(a, b) \<in> set (edges_of (enumerate 0 adj))"
  then show "a < length adj \<and> b \<in> set (adj ! a)"
    by (auto simp: edges_of_def in_set_enumerate_eq)
next
  assume ab: "a < length adj \<and> b \<in> set (adj ! a)"
  then have "(a, adj ! a) \<in> set (enumerate 0 adj)"
    by (simp add: in_set_enumerate_eq)
  with ab show "(a, b) \<in> set (edges_of (enumerate 0 adj))"
    by (auto simp: edges_of_def intro!: bexI [where x = "(a, adj ! a)"])
qed

lemma edges_valid:
  "valid_adj adj \<Longrightarrow> (a, b) \<in> set (edges_of (enumerate 0 adj)) \<Longrightarrow>
   a < length adj \<and> b < length adj"
  by (auto simp: edges_of_enumerate valid_adj_def list_all_iff)

subsection \<open>Which indices the unions put together\<close>

lemma link_nth:
  "x < length uf \<Longrightarrow> link uf a b ! x = (if uf ! x = uf ! a then uf ! b else uf ! x)"
  by (simp add: link_def)

lemma link_keeps:
  "x < length uf \<Longrightarrow> y < length uf \<Longrightarrow> uf ! x = uf ! y \<Longrightarrow> link uf a b ! x = link uf a b ! y"
  by (simp add: link_nth)

lemma link_joins:
  "a < length uf \<Longrightarrow> b < length uf \<Longrightarrow> link uf a b ! a = link uf a b ! b"
  by (simp add: link_nth)

lemma link_only:
  assumes "x < length uf" "y < length uf" "link uf a b ! x = link uf a b ! y"
  shows "uf ! x = uf ! y \<or> (uf ! x = uf ! a \<and> uf ! y = uf ! b) \<or>
         (uf ! x = uf ! b \<and> uf ! y = uf ! a)"
  using assms by (auto simp: link_nth split: if_splits)

lemma links_keeps:
  "x < length uf \<Longrightarrow> y < length uf \<Longrightarrow> uf ! x = uf ! y \<Longrightarrow> links es uf ! x = links es uf ! y"
proof (induction es arbitrary: uf)
  case Nil
  then show ?case by simp
next
  case (Cons e es)
  obtain a b where e: "e = (a, b)" by (cases e)
  from Cons.prems have "link uf a b ! x = link uf a b ! y" by (rule link_keeps)
  with Cons.prems show ?case
    by (simp add: e Cons.IH)
qed

lemma links_joins:
  assumes "(a, b) \<in> set es" "a < length uf" "b < length uf"
  shows "links es uf ! a = links es uf ! b"
  using assms
proof (induction es arbitrary: uf)
  case Nil
  then show ?case by simp
next
  case (Cons e es)
  obtain c d where e: "e = (c, d)" by (cases e)
  show ?case
  proof (cases "e = (a, b)")
    case True
    have "link uf a b ! a = link uf a b ! b"
      by (rule link_joins) (use Cons.prems in simp_all)
    then have "links es (link uf a b) ! a = links es (link uf a b) ! b"
      using Cons.prems by (intro links_keeps) simp_all
    with True show ?thesis by simp
  next
    case False
    with Cons.prems have "(a, b) \<in> set es" by simp
    then have "links es (link uf c d) ! a = links es (link uf c d) ! b"
      using Cons.prems by (intro Cons.IH) simp_all
    then show ?thesis by (simp add: e)
  qed
qed

text \<open>
  Everything the unions put together is related by every symmetric and transitive relation
  that contains the edges and what was together before.
\<close>

lemma links_sound:
  assumes sym: "\<And>x y. E x y \<Longrightarrow> E y x"
    and trans: "\<And>x y z. E x y \<Longrightarrow> E y z \<Longrightarrow> E x z"
    and edges: "\<And>a b. (a, b) \<in> set es \<Longrightarrow> a < n \<and> b < n \<and> E a b"
  shows "length uf = n \<Longrightarrow>
     (\<And>x y. x < n \<Longrightarrow> y < n \<Longrightarrow> uf ! x = uf ! y \<Longrightarrow> E x y) \<Longrightarrow>
     x < n \<Longrightarrow> y < n \<Longrightarrow> links es uf ! x = links es uf ! y \<Longrightarrow> E x y"
  using edges
proof (induction es arbitrary: uf x y)
  case Nil
  then show ?case by simp
next
  case (Cons e es)
  obtain a b where e: "e = (a, b)" by (cases e)
  from Cons.prems(6) [of a b] have ab: "a < n" "b < n" "E a b" by (simp_all add: e)
  have step: "E u v" if u: "u < n" and v: "v < n" and eq: "link uf a b ! u = link uf a b ! v"
    for u v
  proof -
    from u v have u': "u < length uf" and v': "v < length uf"
      by (simp_all add: Cons.prems(1))
    from link_only [OF u' v' eq]
    consider "uf ! u = uf ! v" | "uf ! u = uf ! a \<and> uf ! v = uf ! b"
      | "uf ! u = uf ! b \<and> uf ! v = uf ! a" by blast
    then show ?thesis
    proof cases
      case 1
      then show ?thesis by (rule Cons.prems(2) [OF u v])
    next
      case 2
      then have "E u a" "E b v"
        using Cons.prems(2) u v ab by simp_all
      with ab(3) show ?thesis by (blast intro: trans)
    next
      case 3
      then have "E u b" "E a v"
        using Cons.prems(2) u v ab by simp_all
      with ab(3) show ?thesis by (blast intro: trans sym)
    qed
  qed
  show ?case
  proof (rule Cons.IH [of "link uf a b"])
    show "length (link uf a b) = n" by (simp add: Cons.prems(1))
    show "\<And>x y. x < n \<Longrightarrow> y < n \<Longrightarrow> link uf a b ! x = link uf a b ! y \<Longrightarrow> E x y"
      by (rule step)
    show "x < n" "y < n" by fact+
    show "links es (link uf a b) ! x = links es (link uf a b) ! y"
      using Cons.prems(5) by (simp add: e)
    show "\<And>a b. (a, b) \<in> set es \<Longrightarrow> a < n \<and> b < n \<and> E a b"
      by (rule Cons.prems(6)) simp
  qed
qed

subsection \<open>Every entry of the adjacency list is a global index\<close>

lemma row_ranges:
  assumes i: "i < length ls" and k: "k < length (ls ! i)"
  shows "\<exists>same cross. adjacency ls r1 r2 ! (start_of ls i + k) = same @ cross \<and>
        (\<forall>x \<in> set same. start_of ls i \<le> x \<and> x < start_of ls i + length (ls ! i)) \<and>
        (\<forall>x \<in> set cross. \<exists>j. i < j \<and> j < length ls \<and> start_of ls j \<le> x \<and>
                          x < start_of ls j + length (ls ! j))"
proof -
  let ?same = "map (\<lambda>x. x + start_of ls i) (ball_idx r1 (ls ! i ! k) (ls ! i))"
  let ?cross = "cross_row ls r2 (ls ! i ! k) [i + 1..<length ls]"
  have a: "adjacency ls r1 r2 ! (start_of ls i + k) = ?same @ ?cross"
    using adjacency_nth [OF i k] by (simp add: row_def)
  have s: "\<forall>x \<in> set ?same. start_of ls i \<le> x \<and> x < start_of ls i + length (ls ! i)"
    by (auto dest: ball_idx_bound)
  have c: "\<forall>x \<in> set ?cross. \<exists>j. i < j \<and> j < length ls \<and> start_of ls j \<le> x \<and>
                        x < start_of ls j + length (ls ! j)"
  proof
    fix x assume "x \<in> set ?cross"
    from cross_row_range [OF this] obtain j where "j \<in> set [i + 1..<length ls]"
      and "start_of ls j \<le> x \<and> x < start_of ls j + length (ls ! j)" by blast
    then have "i < j \<and> j < length ls \<and> start_of ls j \<le> x \<and>
          x < start_of ls j + length (ls ! j)" by simp
    then show "\<exists>j. i < j \<and> j < length ls \<and> start_of ls j \<le> x \<and>
          x < start_of ls j + length (ls ! j)" ..
  qed
  from a s c show ?thesis by blast
qed

lemma global_index:
  assumes "g < length (concat ls)"
  obtains i k where "i < length ls" "k < length (ls ! i)" "g = start_of ls i + k"
  using concat_index [OF assms] by (auto simp: start_of_def)

lemma adjacency_entries:
  assumes g: "g < length (concat ls)" and x: "x \<in> set (adjacency ls r1 r2 ! g)"
  shows "x < length (concat ls)"
proof -
  from g obtain i k where i: "i < length ls" and k: "k < length (ls ! i)"
    and geq: "g = start_of ls i + k" by (rule global_index)
  from row_ranges [OF i k, of r1 r2] obtain same cross where
    a: "adjacency ls r1 r2 ! g = same @ cross" and
    s: "\<forall>x \<in> set same. start_of ls i \<le> x \<and> x < start_of ls i + length (ls ! i)" and
    c: "\<forall>x \<in> set cross. \<exists>j. i < j \<and> j < length ls \<and> start_of ls j \<le> x \<and>
                        x < start_of ls j + length (ls ! j)"
    unfolding geq by blast
  from x a have "x \<in> set same \<or> x \<in> set cross" by simp
  then show ?thesis
  proof
    assume "x \<in> set same"
    with s start_of_end [OF i] show ?thesis by force
  next
    assume "x \<in> set cross"
    with c obtain j where "j < length ls" "x < start_of ls j + length (ls ! j)" by blast
    with start_of_end [of j ls] show ?thesis by simp
  qed
qed

lemma adjacency_valid: "valid_adj (adjacency ls r1 r2)"
  unfolding valid_adj_def list_all_iff
proof (intro ballI)
  fix row x assume "row \<in> set (adjacency ls r1 r2)" and x: "x \<in> set row"
  then obtain g where g: "g < length (adjacency ls r1 r2)" and row: "row = adjacency ls r1 r2 ! g"
    by (auto simp: in_set_conv_nth)
  from g have "g < length (concat ls)" by simp
  from adjacency_entries [OF this] x row show "x < length (adjacency ls r1 r2)" by simp
qed

subsection \<open>The clusters\<close>

lemma list_unions_set:
  "c \<in> set (list_unions uf) \<longleftrightarrow>
     (\<exists>r \<in> set uf. c = (r, filter (\<lambda>i. uf ! i = r) [0..<length uf]))"
  by (auto simp: list_unions_def)

lemma list_unions_member:
  "c \<in> set (list_unions uf) \<Longrightarrow> x \<in> set (snd c) \<longleftrightarrow> x < length uf \<and> uf ! x = fst c"
  by (auto simp: list_unions_set)

lemma list_unions_keys: "distinct (map fst (list_unions uf))"
  by (simp add: list_unions_def comp_def)

lemma list_unions_cluster_of:
  assumes "g < length uf"
  shows "(uf ! g, filter (\<lambda>i. uf ! i = uf ! g) [0..<length uf]) \<in> set (list_unions uf)"
  using assms by (auto simp: list_unions_set)

lemma list_unions_partition:
  assumes "g < length uf"
  shows "\<exists>!c. c \<in> set (list_unions uf) \<and> g \<in> set (snd c)"
proof (rule ex1I)
  let ?c = "(uf ! g, filter (\<lambda>i. uf ! i = uf ! g) [0..<length uf])"
  show "?c \<in> set (list_unions uf) \<and> g \<in> set (snd ?c)"
    using assms list_unions_cluster_of [OF assms] by simp
  fix c assume c: "c \<in> set (list_unions uf) \<and> g \<in> set (snd c)"
  then obtain r where r: "c = (r, filter (\<lambda>i. uf ! i = r) [0..<length uf])"
    by (auto simp: list_unions_set)
  with c have "uf ! g = r" by simp
  with r show "c = ?c" by simp
qed

lemma list_unions_nonempty:
  assumes "c \<in> set (list_unions uf)"
  shows "snd c \<noteq> []"
proof -
  from assms obtain r where r: "r \<in> set uf" and c: "c = (r, filter (\<lambda>i. uf ! i = r) [0..<length uf])"
    by (auto simp: list_unions_set)
  from r obtain i where "i < length uf" "uf ! i = r" by (auto simp: in_set_conv_nth)
  then have "i \<in> set (snd c)" by (simp add: c)
  then show ?thesis by auto
qed

lemma sorted_filter_upt: "sorted (filter P [0..<n])"
  using sorted_filter [of "\<lambda>x. x" "[0..<n]" P] by simp

lemma list_unions_sorted:
  "c \<in> set (list_unions uf) \<Longrightarrow> sorted (snd c) \<and> distinct (snd c)"
  by (auto simp: list_unions_set sorted_filter_upt)

lemma same_cluster_iff:
  "(\<exists>c \<in> set (list_unions uf). x \<in> set (snd c) \<and> y \<in> set (snd c)) \<longleftrightarrow>
     x < length uf \<and> y < length uf \<and> uf ! x = uf ! y"
proof
  assume "\<exists>c \<in> set (list_unions uf). x \<in> set (snd c) \<and> y \<in> set (snd c)"
  then show "x < length uf \<and> y < length uf \<and> uf ! x = uf ! y"
    by (auto simp: list_unions_member)
next
  assume a: "x < length uf \<and> y < length uf \<and> uf ! x = uf ! y"
  then have "x \<in> set (filter (\<lambda>i. uf ! i = uf ! x) [0..<length uf])"
    and "y \<in> set (filter (\<lambda>i. uf ! i = uf ! x) [0..<length uf])" by simp_all
  with list_unions_cluster_of [of x uf] a
  show "\<exists>c \<in> set (list_unions uf). x \<in> set (snd c) \<and> y \<in> set (snd c)"
    by (intro bexI [where x = "(uf ! x, filter (\<lambda>i. uf ! i = uf ! x) [0..<length uf])"]) simp_all
qed

lemma length_components [simp]: "length (components adj) = length adj"
  by (simp add: components_def UnionFind_def)

lemma second_stage:
  assumes "init ls = Inr s" "cluster_all_layers s r1 r2 = Inr (adj, s')"
  shows "compress_match s' = Inr (list_unions (components adj), s')"
    and "length (components adj) = length (layers_combined s)"
proof -
  from first_call [OF assms] have adj: "adj = adjacency ls r1 r2"
    and s': "s' = s\<lparr>match_all_layers := adj\<rparr>" and b: "built ls s" by simp_all
  have "valid_adj (match_all_layers s')"
    by (simp add: s' adj adjacency_valid)
  from compress_match_eq [OF this] show "compress_match s' = Inr (list_unions (components adj), s')"
    by (simp add: s')
  show "length (components adj) = length (layers_combined s)"
    using b by (simp add: adj built_def)
qed

lemma UnionFind_nth: "x < n \<Longrightarrow> UnionFind n ! x = x"
  by (simp add: UnionFind_def)

lemma components_joins:
  assumes "valid_adj adj" "a < length adj" "b \<in> set (adj ! a)"
  shows "components adj ! a = components adj ! b"
proof -
  from assms have e: "(a, b) \<in> set (edges_of (enumerate 0 adj))"
    by (simp add: edges_of_enumerate)
  from edges_valid [OF assms(1) e] have "a < length (UnionFind (length adj))"
    "b < length (UnionFind (length adj))" by (simp_all add: UnionFind_def)
  from links_joins [OF e this] show ?thesis by (simp add: components_def)
qed

lemma components_sound:
  assumes sym: "\<And>x y. E x y \<Longrightarrow> E y x"
    and trans: "\<And>x y z. E x y \<Longrightarrow> E y z \<Longrightarrow> E x z"
    and refl: "\<And>x. x < length adj \<Longrightarrow> E x x"
    and valid: "valid_adj adj"
    and edges: "\<And>a b. a < length adj \<Longrightarrow> b \<in> set (adj ! a) \<Longrightarrow> E a b"
    and x: "x < length adj" and y: "y < length adj"
    and eq: "components adj ! x = components adj ! y"
  shows "E x y"
proof (rule links_sound [where E = E and n = "length adj" and uf = "UnionFind (length adj)"
      and es = "edges_of (enumerate 0 adj)"])
  show "\<And>x y. E x y \<Longrightarrow> E y x" by (rule sym)
  show "\<And>x y z. E x y \<Longrightarrow> E y z \<Longrightarrow> E x z" by (rule trans)
  show "\<And>a b. (a, b) \<in> set (edges_of (enumerate 0 adj)) \<Longrightarrow>
      a < length adj \<and> b < length adj \<and> E a b"
  proof -
    fix a b assume e: "(a, b) \<in> set (edges_of (enumerate 0 adj))"
    then have "a < length adj" "b \<in> set (adj ! a)"
      by (simp_all add: edges_of_enumerate)
    then have "E a b" by (rule edges)
    with edges_valid [OF valid e] show "a < length adj \<and> b < length adj \<and> E a b"
      by simp
  qed
  show "length (UnionFind (length adj)) = length adj" by (simp add: UnionFind_def)
  show "\<And>x y. x < length adj \<Longrightarrow> y < length adj \<Longrightarrow>
      UnionFind (length adj) ! x = UnionFind (length adj) ! y \<Longrightarrow> E x y"
    using refl by (simp add: UnionFind_nth)
  show "x < length adj" "y < length adj" by fact+
  show "links (edges_of (enumerate 0 adj)) (UnionFind (length adj)) ! x =
      links (edges_of (enumerate 0 adj)) (UnionFind (length adj)) ! y"
    using eq by (simp add: components_def)
qed

lemma components_mono:
  assumes v: "valid_adj adj" and v': "valid_adj adj'" and len: "length adj' = length adj"
    and sub: "\<And>g. g < length adj \<Longrightarrow> set (adj ! g) \<subseteq> set (adj' ! g)"
    and x: "x < length adj" and y: "y < length adj"
    and eq: "components adj ! x = components adj ! y"
  shows "components adj' ! x = components adj' ! y"
proof (rule components_sound [where E = "\<lambda>x y. components adj' ! x = components adj' ! y"
      and adj = adj])
  show "valid_adj adj" by fact
  show "\<And>a b. a < length adj \<Longrightarrow> b \<in> set (adj ! a) \<Longrightarrow>
      components adj' ! a = components adj' ! b"
  proof -
    fix a b assume a: "a < length adj" and b: "b \<in> set (adj ! a)"
    from sub [OF a] b have "b \<in> set (adj' ! a)" by blast
    with components_joins [OF v', of a b] a show "components adj' ! a = components adj' ! b"
      by (simp add: len)
  qed
  show "x < length adj" "y < length adj" "components adj ! x = components adj ! y" by fact+
qed simp_all

lemma components_isolated:
  assumes v: "valid_adj adj" and g: "g < length adj"
    and iso: "\<And>h. h < length adj \<Longrightarrow> h \<noteq> g \<Longrightarrow> g \<notin> set (adj ! h) \<and> h \<notin> set (adj ! g)"
    and y: "y < length adj" and eq: "components adj ! y = components adj ! g"
  shows "y = g"
proof -
  have "y = g \<or> (y \<noteq> g \<and> g \<noteq> g)"
  proof (rule components_sound [where E = "\<lambda>x y. x = y \<or> (x \<noteq> g \<and> y \<noteq> g)" and adj = adj])
    show "valid_adj adj" by fact
    show "\<And>a b. a < length adj \<Longrightarrow> b \<in> set (adj ! a) \<Longrightarrow> a = b \<or> (a \<noteq> g \<and> b \<noteq> g)"
    proof -
      fix a b assume a: "a < length adj" and b: "b \<in> set (adj ! a)"
      have bn: "b < length adj"
        using v a b by (auto simp: valid_adj_def list_all_iff)
      show "a = b \<or> (a \<noteq> g \<and> b \<noteq> g)"
      proof (cases "a = g")
        case True
        with iso [OF bn] b show ?thesis by auto
      next
        case False
        with iso [OF a] b show ?thesis by auto
      qed
    qed
    show "y < length adj" "g < length adj" "components adj ! y = components adj ! g" by fact+
  qed auto
  then show ?thesis by simp
qed

lemma singleton_filter:
  assumes "g < n" "\<And>i. i < n \<Longrightarrow> P i \<longleftrightarrow> i = g"
  shows "filter P [0..<n] = [g]"
proof (rule sorted_distinct_set_unique)
  show "sorted (filter P [0..<n])" by (rule sorted_filter_upt)
  show "set (filter P [0..<n]) = set [g]" using assms by auto
qed simp_all

subsection \<open>Distances\<close>

lemma minkowski_distance_sq_nonneg: "0 \<le> minkowski_distance_sq p q"
  unfolding minkowski_distance_sq_def by (rule sum_list_nonneg) auto

lemma minkowski_distance_sq_self: "minkowski_distance_sq p p = 0"
  unfolding minkowski_distance_sq_def by (induction p) simp_all

lemma in_radius_sqrt: "in_radius r p q \<longleftrightarrow> sqrt (minkowski_distance_sq p q) \<le> \<bar>r\<bar>"
  using real_sqrt_le_iff [of "minkowski_distance_sq p q" "r * r"]
  by (simp add: in_radius_def)


lemma in_radius_self: "in_radius r p p"
  by (simp add: in_radius_def minkowski_distance_sq_self)

lemma in_radius_mono: "0 \<le> r \<Longrightarrow> r \<le> r' \<Longrightarrow> in_radius r p q \<Longrightarrow> in_radius r' p q"
proof -
  assume "0 \<le> r" "r \<le> r'" "in_radius r p q"
  then have "r * r \<le> r' * r'" by (intro mult_mono) simp_all
  with \<open>in_radius r p q\<close> show ?thesis by (simp add: in_radius_def)
qed

lemma ball_idx_set: "set (ball_idx r p pts) = {j. j < length pts \<and> in_radius r p (pts ! j)}"
  by (auto simp: ball_idx_def)





lemma ball_idx_mono:
  "0 \<le> r \<Longrightarrow> r \<le> r' \<Longrightarrow> set (ball_idx r p pts) \<subseteq> set (ball_idx r' p pts)"
  by (auto simp: ball_idx_set intro: in_radius_mono)

lemma cross_row_mono:
  "0 \<le> r \<Longrightarrow> r \<le> r' \<Longrightarrow> set (cross_row ls r p js) \<subseteq> set (cross_row ls r' p js)"
  using ball_idx_mono [of r r' p] by (fastforce simp: cross_row_def)

lemma row_mono:
  "0 \<le> r1 \<Longrightarrow> r1 \<le> r1' \<Longrightarrow> 0 \<le> r2 \<Longrightarrow> r2 \<le> r2' \<Longrightarrow>
   set (row ls r1 r2 i k) \<subseteq> set (row ls r1' r2' i k)"
  using ball_idx_mono [of r1 r1' "ls ! i ! k" "ls ! i"]
    cross_row_mono [of r2 r2' ls "ls ! i ! k" "[i + 1..<length ls]"]
  by (auto simp: row_def)

lemma adjacency_mono:
  assumes "0 \<le> r1" "r1 \<le> r1'" "0 \<le> r2" "r2 \<le> r2'" "g < length (concat ls)"
  shows "set (adjacency ls r1 r2 ! g) \<subseteq> set (adjacency ls r1' r2' ! g)"
proof -
  from assms(5) obtain i k where i: "i < length ls" and k: "k < length (ls ! i)"
    and g: "g = start_of ls i + k" by (rule global_index)
  show ?thesis
    unfolding g adjacency_nth [OF i k] by (rule row_mono) fact+
qed

lemma adjacency_self:
  assumes "g < length (concat ls)"
  shows "g \<in> set (adjacency ls r1 r2 ! g)"
proof -
  from assms obtain i k where i: "i < length ls" and k: "k < length (ls ! i)"
    and g: "g = start_of ls i + k" by (rule global_index)
  have "k \<in> set (ball_idx r1 (ls ! i ! k) (ls ! i))"
    using k by (simp add: ball_idx_set in_radius_self)
  then have "k + start_of ls i \<in> set (row ls r1 r2 i k)"
    by (simp add: row_def)
  then show ?thesis
    unfolding g adjacency_nth [OF i k] by (simp add: add.commute)
qed

subsection \<open>The whole run\<close>

lemma run_cluster_eq:
  "run_cluster ls r1 r2 =
     (if list_all accepted ls
      then if dims_ok ls then Inr (adjacency ls r1 r2) else Inl ValueError
      else Inl (reject_error ls))"
proof (cases "list_all accepted ls")
  case False
  then show ?thesis by (simp add: run_cluster_def init_eq)
next
  case True
  let ?s = "\<lparr>layers = ls, match_all_layers = [], layers_combined = concat ls,
                layer_start_idx = map (start_of ls) [0..<length ls],
                layers_tree = map tree_of ls, num_layers = length ls\<rparr>"
  have i: "init ls = Inr ?s" using True by (simp add: init_eq)
  from init_built [OF i] have b: "built ls ?s" by simp
  show ?thesis
    unfolding run_cluster_def i using True
    by (simp add: cluster_all_layers_eq [OF b])
qed

lemma run_main_eq:
  "run_main ls r1 r2 =
     (if list_all accepted ls
      then if dims_ok ls then Inr (list_unions (components (adjacency ls r1 r2)))
           else Inl ValueError
      else Inl (reject_error ls))"
proof (cases "list_all accepted ls")
  case False
  then show ?thesis by (simp add: run_main_def init_eq)
next
  case True
  let ?s = "\<lparr>layers = ls, match_all_layers = [], layers_combined = concat ls,
                layer_start_idx = map (start_of ls) [0..<length ls],
                layers_tree = map tree_of ls, num_layers = length ls\<rparr>"
  have i: "init ls = Inr ?s" using True by (simp add: init_eq)
  from init_built [OF i] have b: "built ls ?s" by simp
  have c: "compress_match (?s\<lparr>match_all_layers := adjacency ls r1 r2\<rparr>) =
      Inr (list_unions (components (adjacency ls r1 r2)),
           ?s\<lparr>match_all_layers := adjacency ls r1 r2\<rparr>)"
    using compress_match_eq [of "?s\<lparr>match_all_layers := adjacency ls r1 r2\<rparr>"]
    by (simp add: adjacency_valid)
  show ?thesis
  proof (cases "dims_ok ls")
    case False
    then show ?thesis
      unfolding run_main_def i using True by (simp add: cluster_all_layers_eq [OF b])
  next
    case ok: True
    have "cluster_all_layers ?s r1 r2 =
        Inr (adjacency ls r1 r2, ?s\<lparr>match_all_layers := adjacency ls r1 r2\<rparr>)"
      using ok by (simp add: cluster_all_layers_eq [OF b])
    then show ?thesis
      unfolding run_main_def i using True ok c by simp
  qed
qed


subsection \<open>The closed forms, by recursion over the layers\<close>

lemma upt_drop_step:
  assumes "j < length ls"
  shows "[j..<length ls] = j # [Suc j..<length ls]" "drop j ls = ls ! j # drop (Suc j) ls"
  using assms by (simp_all add: upt_conv_Cons Cons_nth_drop_Suc)

lemma cross_row_from:
  "j \<le> length ls \<Longrightarrow>
   cross_row ls r p [j..<length ls] = cross_from r p (start_of ls j) (drop j ls)"
proof (induction "length ls - j" arbitrary: j)
  case 0
  then show ?case by (simp add: cross_row_def)
next
  case (Suc d)
  then have j: "j < length ls" by simp
  have "cross_row ls r p [Suc j..<length ls] =
      cross_from r p (start_of ls (Suc j)) (drop (Suc j) ls)"
    by (rule Suc.hyps(1)) (use Suc.hyps(2) j in simp_all)
  then show ?case
    unfolding upt_drop_step [OF j]
    by (simp add: cross_row_def start_of_Suc [OF j])
qed

lemma layer_rows_from:
  assumes "i < length ls"
  shows "layer_rows ls r1 r2 i =
     map (\<lambda>p. map (\<lambda>x. x + start_of ls i) (ball_idx r1 p (ls ! i)) @
              cross_from r2 p (start_of ls i + length (ls ! i)) (drop (Suc i) ls)) (ls ! i)"
proof -
  have "layer_rows ls r1 r2 i =
      map (\<lambda>k. (\<lambda>p. map (\<lambda>x. x + start_of ls i) (ball_idx r1 p (ls ! i)) @
              cross_from r2 p (start_of ls i + length (ls ! i)) (drop (Suc i) ls)) (ls ! i ! k))
        [0..<length (ls ! i)]"
    using assms cross_row_from [of "Suc i" ls r2]
    by (simp add: layer_rows_def row_def start_of_Suc)
  also have "\<dots> = map (\<lambda>p. map (\<lambda>x. x + start_of ls i) (ball_idx r1 p (ls ! i)) @
              cross_from r2 p (start_of ls i + length (ls ! i)) (drop (Suc i) ls))
        (map ((!) (ls ! i)) [0..<length (ls ! i)])"
    by (simp only: map_map comp_def)
  finally show ?thesis by (simp only: map_nth)
qed

lemma adjacency_from_aux:
  "i \<le> length ls \<Longrightarrow>
   concat (map (layer_rows ls r1 r2) [i..<length ls]) = adj_from r1 r2 (start_of ls i) (drop i ls)"
proof (induction "length ls - i" arbitrary: i)
  case 0
  then show ?case by simp
next
  case (Suc d)
  then have i: "i < length ls" by simp
  have "concat (map (layer_rows ls r1 r2) [Suc i..<length ls]) =
      adj_from r1 r2 (start_of ls (Suc i)) (drop (Suc i) ls)"
    by (rule Suc.hyps(1)) (use Suc.hyps(2) i in simp_all)
  then show ?case
    unfolding upt_drop_step [OF i]
    by (simp add: layer_rows_from [OF i] start_of_Suc [OF i])
qed

lemma adjacency_from: "adjacency ls r1 r2 = adj_from r1 r2 0 ls"
  using adjacency_from_aux [of 0 ls r1 r2] by (simp add: adjacency_def start_of_def)

lemma map_nth_drop: "map ((!) ls) [a..<length ls] = drop a ls"
  by (rule nth_equalityI) simp_all

lemma dims_agree_drop:
  "i < length ls \<Longrightarrow>
   dims_agree ls i [Suc i..<length ls] =
     list_all (\<lambda>l'. l' = [] \<or> query_ok (ls ! i) l') (drop (Suc i) ls)"
proof -
  have "list_all (\<lambda>l'. l' = [] \<or> query_ok (ls ! i) l') (drop (Suc i) ls) =
      list_all (\<lambda>l'. l' = [] \<or> query_ok (ls ! i) l')
        (map ((!) ls) [Suc i..<length ls])"
    by (simp only: map_nth_drop)
  then show ?thesis
    by (simp add: dims_agree_def list_all_iff)
qed

lemma dims_ok_from_aux:
  "i \<le> length ls \<Longrightarrow> list_all (layer_ok ls) [i..<length ls] = dims_ok_from (drop i ls)"
proof (induction "length ls - i" arbitrary: i)
  case 0
  then show ?case by simp
next
  case (Suc d)
  then have i: "i < length ls" by simp
  have "list_all (layer_ok ls) [Suc i..<length ls] = dims_ok_from (drop (Suc i) ls)"
    by (rule Suc.hyps(1)) (use Suc.hyps(2) i in simp_all)
  then show ?case
    unfolding upt_drop_step [OF i]
    by (simp add: layer_ok_def dims_agree_drop [OF i])
qed

lemma dims_ok_from: "dims_ok ls = dims_ok_from ls"
  using dims_ok_from_aux [of 0 ls] by (simp add: dims_ok_def)

subsection \<open>An empty layer changes nothing\<close>

lemma cross_from_empty: "cross_from r p off (xs @ [] # ys) = cross_from r p off (xs @ ys)"
  by (induction xs arbitrary: off) simp_all

lemma adj_from_empty: "adj_from r1 r2 off (xs @ [] # ys) = adj_from r1 r2 off (xs @ ys)"
  by (induction xs arbitrary: off) (simp_all add: cross_from_empty)

lemma dims_ok_from_empty: "dims_ok_from (xs @ [] # ys) = dims_ok_from (xs @ ys)"
  by (induction xs) auto

lemma uniform_Nil [simp]: "uniform []"
  by (simp add: uniform_def)

lemma accepted_Nil [simp]: "accepted []"
  by (simp add: accepted_def)

lemma reject_error_empty: "reject_error (xs @ [] # ys) = reject_error (xs @ ys)"
  by (induction xs) simp_all

subsection \<open>Dimensions\<close>

lemma uniform_iff: "uniform l \<longleftrightarrow> (\<forall>p \<in> set l. \<forall>q \<in> set l. length p = length q)"
  by (cases l) (auto simp: uniform_def list_all_iff)

lemma uniform_dim: "uniform l \<Longrightarrow> p \<in> set l \<Longrightarrow> length p = dim_of l"
  by (cases l) (auto simp: uniform_def list_all_iff dim_of_def)

lemma accepted_uniform: "accepted l \<Longrightarrow> uniform l"
  by (auto simp: accepted_def)

lemma dims_ok_dims:
  assumes ok: "dims_ok ls" and ij: "i < j" "j < length ls" and ne: "ls ! i \<noteq> []" "ls ! j \<noteq> []"
  shows "dim_of (ls ! j) = dim_of (ls ! i)"
proof -
  from ij have "i \<in> set [0..<length ls]" by simp
  with ok have "layer_ok ls i" by (simp add: dims_ok_def list_all_iff)
  with ne have "dims_agree ls i [i + 1..<length ls]" by (simp add: layer_ok_def)
  moreover from ij have "j \<in> set [i + 1..<length ls]" by simp
  ultimately have "ls ! j = [] \<or> query_ok (ls ! i) (ls ! j)"
    unfolding dims_agree_def list_all_iff by blast
  with ne show ?thesis by (simp add: query_ok_def)
qed

lemma dims_ok_points:
  assumes u: "list_all accepted ls" and ok: "dims_ok ls"
    and l: "l \<in> set ls" and l': "l' \<in> set ls" and p: "p \<in> set l" and q: "q \<in> set l'"
  shows "length p = length q"
proof -
  have dim: "dim_of (ls ! i) = dim_of (ls ! j)"
    if "i < length ls" "j < length ls" "ls ! i \<noteq> []" "ls ! j \<noteq> []" for i j
  proof -
    consider "i < j" | "i = j" | "j < i" by linarith
    then show ?thesis
    proof cases
      case 1
      from dims_ok_dims [OF ok 1 that(2,3,4)] show ?thesis by simp
    next
      case 2
      then show ?thesis by simp
    next
      case 3
      from dims_ok_dims [OF ok 3 that(1,4,3)] show ?thesis .
    qed
  qed
  from l l' obtain i j where i: "i < length ls" "l = ls ! i" and j: "j < length ls" "l' = ls ! j"
    by (auto simp: in_set_conv_nth)
  from u l l' have "uniform l" "uniform l'" by (simp_all add: list_all_iff accepted_uniform)
  with p q have "length p = dim_of l" "length q = dim_of l'" by (simp_all add: uniform_dim)
  moreover have "dim_of l = dim_of l'"
  proof -
    from p q have "ls ! i \<noteq> []" "ls ! j \<noteq> []" by (auto simp: i(2) j(2))
    from dim [OF i(1) j(1) this] show ?thesis by (simp add: i(2) j(2))
  qed
  ultimately show ?thesis by simp
qed

subsection \<open>What a row holds\<close>






lemma KDTree_accepted: "l \<noteq> [] \<Longrightarrow> isl (KDTree l) = (\<not> accepted l)"
  by (cases l) (simp_all add: KDTree_def accepted_def uniform_def dim_of_def)

lemma init_fails_iff: "isl (init ls) = (\<exists>l \<in> set ls. l \<noteq> [] \<and> isl (KDTree l))"
proof -
  have a: "accepted = (\<lambda>l. \<not> (l \<noteq> [] \<and> isl (KDTree l)))"
  proof
    fix l show "accepted l = (\<not> (l \<noteq> [] \<and> isl (KDTree l)))"
      by (cases "l = []") (simp_all add: KDTree_accepted)
  qed
  have "list_all accepted ls = (\<not> (\<exists>l \<in> set ls. l \<noteq> [] \<and> isl (KDTree l)))"
    unfolding a list_all_iff by simp
  then show ?thesis by (simp add: init_eq)
qed

subsection \<open>The small input, evaluated\<close>

lemma example_init: "init example_layers = Inr example_state"
  by code_simp

lemma example_cluster: "cluster_all_layers example_state 1 1 = Inr (example_adj, example_state1)"
  by code_simp

lemma example_cluster2:
  "cluster_all_layers example_state1 1 1 = Inr (example_adj @ example_adj, example_state2)"
  by code_simp

lemma example_compress:
  "compress_match example_state1 = Inr ([(1, [1]), (2, [0, 2])], example_state1)"
  by code_simp

lemma scenario_run:
  "run_main scenario_layers (2 / 10) (2 / 10) =
     Inr [(5, [1, 5]), (7, [0, 3, 4, 7]), (8, [2, 6, 8])]"
  by code_simp

lemma scenario_points:
  "map ((!) (concat scenario_layers)) [0, 3, 4, 7] =
     [[1, 1], [11 / 10, 11 / 10], [9 / 10, 9 / 10], [115 / 100, 115 / 100]]"
  "map ((!) (concat scenario_layers)) [1, 5] = [[2, 2], [21 / 10, 21 / 10]]"
  "map ((!) (concat scenario_layers)) [2, 6, 8] = [[3, 3], [32 / 10, 32 / 10], [31 / 10, 31 / 10]]"
  by (simp_all add: scenario_layers_def)

lemma mixed_init: "init mixed_layers = Inr (projr (init mixed_layers))"
  by code_simp

lemma mixed_cluster: "cluster_all_layers (projr (init mixed_layers)) 1 1 = Inl ValueError"
  by code_simp

text \<open>
  The library's two other refusals, on layers of one dimensionality each: the query on a
  layer whose bounding box is too wide, and the index of points without coordinates.
\<close>

lemma huge_overflows: "overflows [[0], [2 ^ 600]] [[0], [2 ^ 600]]"
proof -
  have "(2 :: real) ^ 1024 \<le> 2 ^ 1200" by (rule power_increasing) simp_all
  also have "(2 :: real) ^ 1200 = (2 ^ 600)\<^sup>2" unfolding power_mult [symmetric] by simp
  finally show ?thesis
    by (simp add: overflows_def rect_max_distance_sq_def mins_def maxes_def del: power_mult)
qed

lemma huge_cluster:
  "\<not> isl (init huge_layers) \<and> run_cluster huge_layers r1 r2 = Inl ValueError"
proof -
  have a: "list_all accepted huge_layers"
    by (simp add: huge_layers_def accepted_def uniform_def dim_of_def)
  have "\<not> dims_ok huge_layers"
    using huge_overflows by (simp add: huge_layers_def dims_ok_def layer_ok_def query_ok_def)
  with a show ?thesis by (simp add: run_cluster_eq init_eq)
qed

lemma zero_dim_init: "init zero_dim_layers = Inl IndexError"
  by code_simp




section \<open>Properties\<close>

text \<open>
  C1. The scenario of the module's script: four layers (the third empty), both radii 0.2,
  one clustering call on a fresh instance, then compression. The result has exactly three
  clusters; their members, as global indices, are {0, 3, 4, 7}, {1, 5} and {2, 6, 8}, which
  are the points (1,1), (1.1,1.1), (0.9,0.9), (1.15,1.15); (2,2), (2.1,2.1); and (3,3),
  (3.2,3.2), (3.1,3.1). The clusters are compared by their members, not by their roots.
  No distance of the scenario is near the radius, so exact reals decide as floats do.
\<close>

theorem scenario_clusters:
  "\<exists>cl. run_main scenario_layers (2 / 10) (2 / 10) = Inr cl \<and> length cl = 3 \<and>
     set (map snd cl) = {[0, 3, 4, 7], [1, 5], [2, 6, 8]} \<and>
     map ((!) (concat scenario_layers)) [0, 3, 4, 7] =
       [[1, 1], [11 / 10, 11 / 10], [9 / 10, 9 / 10], [115 / 100, 115 / 100]] \<and>
     map ((!) (concat scenario_layers)) [1, 5] = [[2, 2], [21 / 10, 21 / 10]] \<and>
     map ((!) (concat scenario_layers)) [2, 6, 8] =
       [[3, 3], [32 / 10, 32 / 10], [31 / 10, 31 / 10]]"
proof (intro exI conjI)
  show "run_main scenario_layers (2 / 10) (2 / 10) =
      Inr [(5, [1, 5]), (7, [0, 3, 4, 7]), (8, [2, 6, 8])]"
    by (rule scenario_run)
  show "length [(5::nat, [1::nat, 5]), (7, [0, 3, 4, 7]), (8, [2, 6, 8])] = 3"
    by simp
  show "set (map snd [(5::nat, [1::nat, 5]), (7, [0, 3, 4, 7]), (8, [2, 6, 8])]) =
      {[0, 3, 4, 7], [1, 5], [2, 6, 8]}"
    by auto
qed (rule scenario_points)+




text \<open>
  C3, as amended. The constructor has no check of its own: it fails exactly when the
  index of some non-empty layer cannot be built, as it cannot when the points of that
  layer differ in dimensionality. It never compares two layers, so layers that are
  accepted one by one are accepted together; when two of them differ in dimensionality,
  that is found by \<^verbatim>\<open>cluster_all_layers\<close>, which then fails with \<open>ValueError\<close> for every
  choice of radii.
\<close>

theorem dimension_mismatch_detection:
  "(isl (init ls) = (\<exists>l \<in> set ls. l \<noteq> [] \<and> isl (KDTree l))) \<and>
   ((\<exists>l \<in> set ls. \<exists>p \<in> set l. \<exists>q \<in> set l. length p \<noteq> length q) \<longrightarrow> isl (init ls)) \<and>
   (\<forall>s. init ls = Inr s \<longrightarrow>
      (\<exists>l \<in> set ls. \<exists>l' \<in> set ls. \<exists>p \<in> set l. \<exists>q \<in> set l'. length p \<noteq> length q) \<longrightarrow>
      cluster_all_layers s r1 r2 = Inl ValueError)"
proof (intro conjI allI impI)
  show "isl (init ls) = (\<exists>l \<in> set ls. l \<noteq> [] \<and> isl (KDTree l))"
    by (rule init_fails_iff)
next
  assume "\<exists>l \<in> set ls. \<exists>p \<in> set l. \<exists>q \<in> set l. length p \<noteq> length q"
  then obtain l where "l \<in> set ls" and "\<not> uniform l"
    unfolding uniform_iff by blast
  then have "\<not> list_all accepted ls"
    unfolding list_all_iff using accepted_uniform by blast
  then show "isl (init ls)" by (simp add: init_eq)
next
  fix s
  assume i: "init ls = Inr s"
    and d: "\<exists>l \<in> set ls. \<exists>l' \<in> set ls. \<exists>p \<in> set l. \<exists>q \<in> set l'. length p \<noteq> length q"
  from init_built [OF i] have b: "built ls s" by simp
  from i have a: "list_all accepted ls" by (simp add: init_eq split: if_splits)
  from d obtain l l' p q where m: "l \<in> set ls" "l' \<in> set ls" "p \<in> set l" "q \<in> set l'"
    and ne: "length p \<noteq> length q" by blast
  have "\<not> dims_ok ls"
  proof
    assume "dims_ok ls"
    from dims_ok_points [OF a this m] ne show False by simp
  qed
  then show "cluster_all_layers s r1 r2 = Inl ValueError"
    by (simp add: cluster_all_layers_eq [OF b])
qed

theorem dimension_mismatch_detection_witness:
  "isl (KDTree [[0, 0], [1]]) \<and> isl (init [[[0, 0], [1]]]) \<and>
   init mixed_layers = Inr (projr (init mixed_layers)) \<and>
   cluster_all_layers (projr (init mixed_layers)) 1 1 = Inl ValueError"
proof -
  have a: "\<exists>l \<in> set [[[0, 0], [1::real]]]. \<exists>p \<in> set l. \<exists>q \<in> set l. length p \<noteq> length q"
    by (rule bexI [where x = "[[0, 0], [1]]"], rule bexI [where x = "[0, 0]"],
        rule bexI [where x = "[1]"]) simp_all
  have k: "isl (KDTree [[0, 0], [1]])" by code_simp
  have m: "\<exists>l \<in> set mixed_layers. \<exists>l' \<in> set mixed_layers. \<exists>p \<in> set l. \<exists>q \<in> set l'.
      length p \<noteq> length q"
    unfolding mixed_layers_def
    by (rule bexI [where x = "[[0, 0]]"], rule bexI [where x = "[[0, 0, 0]]"],
        rule bexI [where x = "[0, 0]"], rule bexI [where x = "[0, 0, 0]"]) simp_all
  from dimension_mismatch_detection [of "[[[0, 0], [1]]]" 1 1, THEN conjunct2, THEN conjunct1,
      THEN mp, OF a]
  have 1: "isl (init [[[0, 0], [1]]])" .
  from dimension_mismatch_detection [of mixed_layers 1 1, THEN conjunct2, THEN conjunct2,
      THEN spec, THEN mp, OF mixed_init, THEN mp, OF m]
  have 2: "cluster_all_layers (projr (init mixed_layers)) 1 1 = Inl ValueError" .
  from k 1 mixed_init 2 show ?thesis by (intro conjI)
qed

text \<open>
  C3, as stated, fails: a layer of 2-dimensional points followed by a layer of
  3-dimensional points is accepted by the constructor, which builds both indexes; the
  mismatch is first found by the cross-layer query of the clustering call.
\<close>

theorem mixed_dimensions_counterexample:
  "\<not> isl (init mixed_layers) \<and> run_cluster mixed_layers 1 1 = Inl ValueError"
  by code_simp

text \<open>
  C4. A second call on the same instance appends to the stored match list instead of
  replacing it: the list it returns has 2 n rows for n points, its first n rows are the
  result of the first call, and with the same radii it is the first result twice.
\<close>

theorem second_call_appends:
  assumes "init ls = Inr s"
    and "cluster_all_layers s r1 r2 = Inr (res1, s1)"
    and "cluster_all_layers s1 r1' r2' = Inr (res2, s2)"
  shows "length res2 = 2 * length (layers_combined s) \<and>
     take (length (layers_combined s)) res2 = res1 \<and>
     match_all_layers s2 = res2 \<and>
     (r1' = r1 \<and> r2' = r2 \<longrightarrow> res2 = res1 @ res1)"
proof -
  from first_call [OF assms(1,2)] have r1: "res1 = adjacency ls r1 r2"
    and s1: "s1 = s\<lparr>match_all_layers := res1\<rparr>" and b: "built ls s" and b1: "built ls s1"
    by simp_all
  have co: "layers_combined s = concat ls" using b by (simp add: built_def)
  from assms(3) have r2: "res2 = res1 @ adjacency ls r1' r2'" and s2: "match_all_layers s2 = res2"
    unfolding cluster_all_layers_eq [OF b1] by (auto simp: s1 split: if_splits)
  show ?thesis
    by (simp add: r2 s2 [unfolded r2] r1 co)
qed

theorem second_call_appends_witness:
  "init example_layers = Inr example_state \<and>
   cluster_all_layers example_state 1 1 = Inr (example_adj, example_state1) \<and>
   cluster_all_layers example_state1 1 1 = Inr (example_adj @ example_adj, example_state2) \<and>
   length (example_adj @ example_adj) = 2 * length (layers_combined example_state) \<and>
   take (length (layers_combined example_state)) (example_adj @ example_adj) = example_adj"
  using second_call_appends [OF example_init example_cluster example_cluster2]
    example_init example_cluster example_cluster2
  by simp

text \<open>
  C5. An empty layer contributes no row: the run on layers with an empty layer among them
  returns exactly what the run on the layers without it returns, the adjacency list as
  well as the partition, and fails exactly when that one fails (the empty
  layer raises nothing). No index is relabelled, since the empty layer's offset slice is
  empty: its offset is the number of points before it, and so is the next layer's.
\<close>

theorem empty_layer_ignored:
  "run_cluster (xs @ [] # ys) r1 r2 = run_cluster (xs @ ys) r1 r2 \<and>
   run_main (xs @ [] # ys) r1 r2 = run_main (xs @ ys) r1 r2 \<and>
   (\<forall>s. init (xs @ [] # ys) = Inr s \<longrightarrow>
      layers_tree s ! length xs = None \<and>
      layer_start_idx s ! length xs = length (concat xs) \<and>
      (ys \<noteq> [] \<longrightarrow> layer_start_idx s ! Suc (length xs) = length (concat xs)) \<and>
      length (layers_combined s) = length (concat xs) + length (concat ys) \<and>
      (\<forall>s0. init (xs @ ys) = Inr s0 \<longrightarrow> layers_combined s = layers_combined s0) \<and>
      (\<forall>adj s'. cluster_all_layers s r1 r2 = Inr (adj, s') \<longrightarrow>
         length adj = length (concat xs) + length (concat ys)))"
proof (intro conjI allI impI)
  let ?ls = "xs @ [] # ys"
  have u: "list_all accepted ?ls = list_all accepted (xs @ ys)"
    "reject_error ?ls = reject_error (xs @ ys)"
    by (simp_all add: reject_error_empty)
  have d: "dims_ok ?ls = dims_ok (xs @ ys)"
    by (simp only: dims_ok_from dims_ok_from_empty)
  have a: "adjacency ?ls r1 r2 = adjacency (xs @ ys) r1 r2"
    by (simp only: adjacency_from adj_from_empty)
  show "run_cluster ?ls r1 r2 = run_cluster (xs @ ys) r1 r2"
    by (simp only: run_cluster_eq u d a)
  show "run_main ?ls r1 r2 = run_main (xs @ ys) r1 r2"
    by (simp only: run_main_eq u d a)
  fix s assume i: "init ?ls = Inr s"
  from init_built [OF i] have b: "built ?ls s" by simp
  have m: "length xs < length ?ls" by simp
  show "layers_tree s ! length xs = None"
    using b by (simp add: built_def tree_of_def nth_append)
  show "layer_start_idx s ! length xs = length (concat xs)"
    using b m by (simp add: built_def start_of_def del: upt_Suc)
  show "length (layers_combined s) = length (concat xs) + length (concat ys)"
    using b by (simp add: built_def)
  {
    assume "ys \<noteq> []"
    then have "Suc (length xs) < length ?ls" by simp
    then show "layer_start_idx s ! Suc (length xs) = length (concat xs)"
      using b by (simp add: built_def start_of_def del: upt_Suc)
  }
  {
    fix s0 assume "init (xs @ ys) = Inr s0"
    from init_built [OF this] have "built (xs @ ys) s0" by simp
    with b show "layers_combined s = layers_combined s0"
      by (simp add: built_def)
  }
  {
    fix adj s' assume "cluster_all_layers s r1 r2 = Inr (adj, s')"
    from first_call [OF i this] show "length adj = length (concat xs) + length (concat ys)"
      by simp
  }
qed

theorem empty_layer_ignored_witness:
  "init ([[[0, 0]]] @ [] # [[[1, 1], [0, 1 / 2]]]) = Inr example_state \<and>
   init ([[[0, 0]]] @ [[[1, 1], [0, 1 / 2]]]) = Inr (projr (init [[[0, 0]], [[1, 1], [0, 1 / 2]]])) \<and>
   cluster_all_layers example_state 1 1 = Inr (example_adj, example_state1) \<and>
   [[[1, 1], [0, 1 / 2 :: real]]] \<noteq> [] \<and>
   layer_start_idx example_state ! Suc (length [[[0, 0 :: real]]]) = length (concat [[[0, 0 :: real]]]) \<and>
   layers_combined example_state = layers_combined (projr (init [[[0, 0]], [[1, 1], [0, 1 / 2]]])) \<and>
   length example_adj = length (concat [[[0, 0 :: real]]]) + length (concat [[[1, 1], [0, 1 / 2 :: real]]])"
proof -
  have i: "init ([[[0, 0]]] @ [] # [[[1, 1], [0, 1 / 2]]]) = Inr example_state"
    using example_init by (simp add: example_layers_def)
  have i0: "init ([[[0, 0]]] @ [[[1, 1], [0, 1 / 2]]]) =
      Inr (projr (init [[[0, 0]], [[1, 1], [0, 1 / 2]]]))"
    by code_simp
  have ne: "[[[1, 1], [0, 1 / 2 :: real]]] \<noteq> []" by simp
  from empty_layer_ignored [of "[[[0, 0]]]" "[[[1, 1], [0, 1 / 2]]]" 1 1] i i0 ne example_cluster
  show ?thesis by simp
qed

text \<open>
  C6. Radius monotonicity: when the run with radii (r1, r2) returns a partition and
  0 \<le> r1 \<le> r1', 0 \<le> r2 \<le> r2', the run with (r1', r2') on the same layers returns a
  partition too, and every cluster of the first is contained in a cluster of the second:
  two points that share a cluster keep sharing one.
\<close>

theorem radius_monotonic:
  assumes "0 \<le> r1" and "r1 \<le> r1'" and "0 \<le> r2" and "r2 \<le> r2'"
    and "run_main ls r1 r2 = Inr cl"
  shows "\<exists>cl'. run_main ls r1' r2' = Inr cl' \<and>
     (\<forall>c \<in> set cl. \<exists>c' \<in> set cl'. set (snd c) \<subseteq> set (snd c')) \<and>
     (\<forall>c \<in> set cl. \<forall>x \<in> set (snd c). \<forall>y \<in> set (snd c).
        \<exists>c' \<in> set cl'. x \<in> set (snd c') \<and> y \<in> set (snd c'))"
proof -
  let ?adj = "adjacency ls r1 r2" and ?adj' = "adjacency ls r1' r2'"
  let ?uf = "components ?adj" and ?uf' = "components ?adj'"
  from assms(5) have ok: "list_all accepted ls \<and> dims_ok ls" and cl: "cl = list_unions ?uf"
    by (auto simp: run_main_eq split: if_splits)
  have run': "run_main ls r1' r2' = Inr (list_unions ?uf')"
    using ok by (simp add: run_main_eq)
  have mono: "?uf' ! x = ?uf' ! y"
    if "x < length (concat ls)" "y < length (concat ls)" "?uf ! x = ?uf ! y" for x y
  proof (rule components_mono [where adj = ?adj])
    show "valid_adj ?adj" "valid_adj ?adj'" by (rule adjacency_valid)+
    show "length ?adj' = length ?adj" by simp
    show "\<And>g. g < length ?adj \<Longrightarrow> set (?adj ! g) \<subseteq> set (?adj' ! g)"
      using assms(1-4) by (simp add: adjacency_mono)
    show "x < length ?adj" "y < length ?adj" using that by simp_all
    show "?uf ! x = ?uf ! y" by fact
  qed
  have sub: "\<exists>c' \<in> set (list_unions ?uf'). set (snd c) \<subseteq> set (snd c')" if c: "c \<in> set cl" for c
  proof -
    from list_unions_nonempty [of c ?uf] c obtain i where i: "i \<in> set (snd c)"
      by (cases "snd c") (auto simp: cl)
    from c have mem: "\<And>x. x \<in> set (snd c) \<longleftrightarrow> x < length (concat ls) \<and> ?uf ! x = fst c"
      using list_unions_member [of c ?uf] by (simp add: cl)
    let ?c' = "(?uf' ! i, filter (\<lambda>j. ?uf' ! j = ?uf' ! i) [0..<length ?uf'])"
    have "?c' \<in> set (list_unions ?uf')"
      by (rule list_unions_cluster_of) (use i mem in simp)
    moreover have "set (snd c) \<subseteq> set (snd ?c')"
    proof
      fix x assume x: "x \<in> set (snd c)"
      with i mem have "x < length (concat ls)" "i < length (concat ls)" "?uf ! x = ?uf ! i"
        by simp_all
      from mono [OF this] \<open>x < length (concat ls)\<close> show "x \<in> set (snd ?c')" by simp
    qed
    ultimately show ?thesis by (rule bexI [rotated])
  qed
  have 1: "\<forall>c \<in> set cl. \<exists>c' \<in> set (list_unions ?uf'). set (snd c) \<subseteq> set (snd c')"
    using sub by blast
  have 2: "\<forall>c \<in> set cl. \<forall>x \<in> set (snd c). \<forall>y \<in> set (snd c).
        \<exists>c' \<in> set (list_unions ?uf'). x \<in> set (snd c') \<and> y \<in> set (snd c')"
    using sub by blast
  from run' 1 2 show ?thesis by (intro exI conjI)
qed

theorem radius_monotonic_witness:
  "(0::real) \<le> 1 / 2 \<and> (1::real) / 2 \<le> 1 \<and>
   run_main example_layers (1 / 2) (1 / 2) = Inr [(1, [1]), (2, [0, 2])] \<and>
   (\<exists>cl'. run_main example_layers 1 1 = Inr cl')"
proof -
  have h: "(0::real) \<le> 1 / 2" "(1::real) / 2 \<le> 1" by simp_all
  have r: "run_main example_layers (1 / 2) (1 / 2) = Inr [(1, [1]), (2, [0, 2])]"
    by code_simp
  from radius_monotonic [OF h h r] h r show ?thesis by blast
qed

text \<open>
  C7. After one clustering call on a fresh instance, \<^verbatim>\<open>compress_match\<close> returns, and what
  it returns is a partition of the global indices 0..n-1 (n the number of points): every
  index is a member of exactly one cluster, every cluster is non-empty and has members
  below n only, and the roots are pairwise different. With no points at all there is no
  cluster.
\<close>

theorem clusters_partition:
  assumes "init ls = Inr s" and "cluster_all_layers s r1 r2 = Inr (adj, s')"
  shows "\<exists>cl. compress_match s' = Inr (cl, s') \<and>
     (\<forall>g < length (layers_combined s). \<exists>!c. c \<in> set cl \<and> g \<in> set (snd c)) \<and>
     (\<forall>c \<in> set cl. snd c \<noteq> [] \<and> (\<forall>x \<in> set (snd c). x < length (layers_combined s))) \<and>
     distinct (map fst cl) \<and>
     (layers_combined s = [] \<longrightarrow> cl = [])"
proof -
  let ?uf = "components adj"
  let ?cl = "list_unions ?uf"
  note st = second_stage [OF assms]
  have n: "length adj = length (layers_combined s)"
    using st(2) by simp
  have 1: "\<forall>g < length (layers_combined s). \<exists>!c. c \<in> set ?cl \<and> g \<in> set (snd c)"
  proof (intro allI impI)
    fix g assume "g < length (layers_combined s)"
    then have "g < length ?uf" by (simp add: n)
    then show "\<exists>!c. c \<in> set ?cl \<and> g \<in> set (snd c)" by (rule list_unions_partition)
  qed
  have 2: "\<forall>c \<in> set ?cl. snd c \<noteq> [] \<and> (\<forall>x \<in> set (snd c). x < length (layers_combined s))"
  proof (intro ballI conjI)
    fix c assume c: "c \<in> set ?cl"
    then show "snd c \<noteq> []" by (rule list_unions_nonempty)
    fix x assume "x \<in> set (snd c)"
    with list_unions_member [OF c, of x] show "x < length (layers_combined s)"
      by (simp add: n)
  qed
  have 3: "distinct (map fst ?cl)" by (rule list_unions_keys)
  have 4: "layers_combined s = [] \<longrightarrow> ?cl = []"
  proof
    assume "layers_combined s = []"
    with n have "adj = []" by simp
    then show "?cl = []" by (simp add: list_unions_def components_def UnionFind_def edges_of_def)
  qed
  from st(1) 1 2 3 4 show ?thesis by (intro exI conjI)
qed

theorem clusters_partition_witness:
  "init example_layers = Inr example_state \<and>
   cluster_all_layers example_state 1 1 = Inr (example_adj, example_state1) \<and>
   (\<exists>cl. compress_match example_state1 = Inr (cl, example_state1) \<and>
      cl = [(1, [1]), (2, [0, 2])] \<and> distinct (map fst cl))"
  using clusters_partition [OF example_init example_cluster] example_init example_cluster
    example_compress
  by simp

text \<open>
  C8. After construction the start offsets are non-decreasing, the offset of layer i is the
  sum of the sizes of the layers before it, and the concatenated point sequence is as long
  as all layers together. Neither \<^verbatim>\<open>cluster_all_layers\<close> nor \<^verbatim>\<open>compress_match\<close>
  changes the offsets, the concatenated sequence, the layers or their number: the first
  only replaces the match list, the second leaves the object as it is.
\<close>

theorem offsets_invariant:
  assumes "init ls = Inr s"
  shows "length (layer_start_idx s) = length ls \<and>
     sorted (layer_start_idx s) \<and>
     (\<forall>i < length ls. layer_start_idx s ! i = sum_list (map length (take i ls))) \<and>
     length (layers_combined s) = sum_list (map length ls) \<and>
     (\<forall>t r1 r2 res t'. cluster_all_layers t r1 r2 = Inr (res, t') \<longrightarrow>
        layer_start_idx t' = layer_start_idx t \<and> layers_combined t' = layers_combined t \<and>
        layers t' = layers t \<and> num_layers t' = num_layers t) \<and>
     (\<forall>t cl t'. compress_match t = Inr (cl, t') \<longrightarrow> t' = t)"
proof -
  from init_built [OF assms] have b: "built ls s" by simp
  then have st: "layer_start_idx s = map (start_of ls) [0..<length ls]"
    and co: "layers_combined s = concat ls"
    by (simp_all add: built_def)
  have 1: "length (layer_start_idx s) = length ls" by (simp add: st)
  have 2: "sorted (layer_start_idx s)" unfolding st by (rule sorted_starts)
  have 3: "\<forall>i < length ls. layer_start_idx s ! i = sum_list (map length (take i ls))"
    by (simp add: st start_of_sum)
  have 4: "length (layers_combined s) = sum_list (map length ls)"
    by (simp add: co length_concat)
  have 5: "\<forall>t r1 r2 res t'. cluster_all_layers t r1 r2 = Inr (res, t') \<longrightarrow>
        layer_start_idx t' = layer_start_idx t \<and> layers_combined t' = layers_combined t \<and>
        layers t' = layers t \<and> num_layers t' = num_layers t"
    by (auto dest: cluster_all_layers_frame)
  have 6: "\<forall>t cl t'. compress_match t = Inr (cl, t') \<longrightarrow> t' = t"
    by (auto dest: compress_match_frame)
  from 1 2 3 4 5 6 show ?thesis by (intro conjI)
qed

theorem offsets_invariant_witness:
  "init example_layers = Inr example_state \<and>
   cluster_all_layers example_state 1 1 = Inr (example_adj, example_state1) \<and>
   compress_match example_state1 = Inr ([(1, [1]), (2, [0, 2])], example_state1) \<and>
   layer_start_idx example_state ! 2 = 1 \<and>
   sorted (layer_start_idx example_state) \<and>
   length (layers_combined example_state) = 3 \<and>
   layer_start_idx example_state1 = layer_start_idx example_state \<and>
   layers_combined example_state1 = layers_combined example_state"
proof -
  note inv = offsets_invariant [OF example_init]
  have "layer_start_idx example_state ! 2 = 1"
    using inv by (simp add: example_layers_def)
  moreover have "length (layers_combined example_state) = 3"
    using inv by (simp add: example_layers_def)
  moreover have "layer_start_idx example_state1 = layer_start_idx example_state \<and>
      layers_combined example_state1 = layers_combined example_state"
    using inv example_cluster by simp
  ultimately show ?thesis
    using inv example_init example_cluster example_compress by simp
qed

text \<open>
  C9. For a non-negative self radius, every point's row of the adjacency list contains the
  point's own global index, and the point is a member of a cluster of the partition. A
  point that matches no other point and is matched by none is a cluster of its own.
\<close>

theorem point_in_own_cluster:
  assumes "init ls = Inr s" and "cluster_all_layers s r1 r2 = Inr (adj, s')"
    and "0 \<le> r1" and "g < length (layers_combined s)"
  shows "g \<in> set (adj ! g) \<and>
     (\<exists>cl. compress_match s' = Inr (cl, s') \<and>
        (\<exists>c \<in> set cl. g \<in> set (snd c)) \<and>
        ((\<forall>h < length adj. h \<noteq> g \<longrightarrow> g \<notin> set (adj ! h) \<and> h \<notin> set (adj ! g)) \<longrightarrow>
           (\<exists>c \<in> set cl. snd c = [g])))"
proof -
  let ?uf = "components adj"
  let ?cl = "list_unions ?uf"
  let ?c = "(?uf ! g, filter (\<lambda>i. ?uf ! i = ?uf ! g) [0..<length ?uf])"
  from first_call [OF assms(1,2)] have adj: "adj = adjacency ls r1 r2" and b: "built ls s"
    by simp_all
  note st = second_stage [OF assms(1,2)]
  have co: "layers_combined s = concat ls" using b by (simp add: built_def)
  have g: "g < length adj" using assms(4) by (simp add: adj co)
  have v: "valid_adj adj" by (simp add: adj adjacency_valid)
  have 1: "g \<in> set (adj ! g)"
    unfolding adj by (rule adjacency_self) (use assms(3,4) co in simp_all)
  have c: "?c \<in> set ?cl"
    by (rule list_unions_cluster_of) (simp add: g)
  have 2: "\<exists>c \<in> set ?cl. g \<in> set (snd c)"
    using c g by (intro bexI [where x = ?c]) simp_all
  have 3: "(\<forall>h < length adj. h \<noteq> g \<longrightarrow> g \<notin> set (adj ! h) \<and> h \<notin> set (adj ! g)) \<longrightarrow>
      (\<exists>c \<in> set ?cl. snd c = [g])"
  proof
    assume iso: "\<forall>h < length adj. h \<noteq> g \<longrightarrow> g \<notin> set (adj ! h) \<and> h \<notin> set (adj ! g)"
    have "filter (\<lambda>i. ?uf ! i = ?uf ! g) [0..<length ?uf] = [g]"
    proof (rule singleton_filter)
      show "g < length ?uf" by (simp add: g)
      fix i assume i: "i < length ?uf"
      show "?uf ! i = ?uf ! g \<longleftrightarrow> i = g"
      proof
        assume "?uf ! i = ?uf ! g"
        with components_isolated [OF v g, of i] iso i show "i = g" by simp
      qed simp
    qed
    with c show "\<exists>c \<in> set ?cl. snd c = [g]"
      by (intro bexI [where x = ?c]) simp_all
  qed
  from 1 st(1) 2 3 show ?thesis by (intro exI conjI)
qed

theorem point_in_own_cluster_witness:
  "init example_layers = Inr example_state \<and>
   cluster_all_layers example_state 1 1 = Inr (example_adj, example_state1) \<and>
   (0::real) \<le> 1 \<and> (1::nat) < length (layers_combined example_state) \<and>
   1 \<in> set (example_adj ! 1) \<and>
   (\<exists>cl. compress_match example_state1 = Inr (cl, example_state1) \<and>
      (\<exists>c \<in> set cl. snd c = [1]))"
proof -
  have n: "(1::nat) < length (layers_combined example_state)"
    by code_simp
  have iso: "\<forall>h < length example_adj. h \<noteq> 1 \<longrightarrow>
      1 \<notin> set (example_adj ! h) \<and> h \<notin> set (example_adj ! 1)"
    by (auto simp: example_adj_def less_Suc_eq numeral_3_eq_3)
  from point_in_own_cluster [OF example_init example_cluster _ n] iso
  have "1 \<in> set (example_adj ! 1)"
    and "\<exists>cl. compress_match example_state1 = Inr (cl, example_state1) \<and>
      (\<exists>c \<in> set cl. snd c = [1])"
    by auto
  with example_init example_cluster n show ?thesis by simp
qed

text \<open>
  C10. After one call on a fresh instance the adjacency list has one row per point. The row
  of the k-th point of layer i is a list of same-layer neighbours, all inside the offset
  range of layer i, followed by a list of cross-layer neighbours, each inside the offset
  range of some later layer j. Hence every index in every row is below the number of rows,
  which is the size of the universe that \<^verbatim>\<open>compress_match\<close> creates: the arguments of
  every union lie in it.
\<close>

theorem neighbour_indices_valid:
  assumes "init ls = Inr s" and "cluster_all_layers s r1 r2 = Inr (adj, s')"
    and "i < length ls" and "k < length (ls ! i)"
  shows "length adj = length (layers_combined s) \<and>
     layer_start_idx s ! i + k < length adj \<and>
     (\<exists>same cross. adj ! (layer_start_idx s ! i + k) = same @ cross \<and>
        (\<forall>x \<in> set same. layer_start_idx s ! i \<le> x \<and>
                          x < layer_start_idx s ! i + length (ls ! i)) \<and>
        (\<forall>x \<in> set cross. \<exists>j. i < j \<and> j < length ls \<and> layer_start_idx s ! j \<le> x \<and>
                          x < layer_start_idx s ! j + length (ls ! j))) \<and>
     (\<forall>g < length adj. \<forall>x \<in> set (adj ! g). x < length adj)"
proof -
  from first_call [OF assms(1,2)] have adj: "adj = adjacency ls r1 r2" and b: "built ls s"
    by simp_all
  have st: "\<And>j. j < length ls \<Longrightarrow> layer_start_idx s ! j = start_of ls j"
    using b by (simp add: built_def)
  have len: "length adj = length (concat ls)" by (simp add: adj)
  have 1: "length adj = length (layers_combined s)"
    using b by (simp add: len built_def)
  have 2: "layer_start_idx s ! i + k < length adj"
    using start_of_end [OF assms(3)] assms(3,4) by (simp add: st len)
  have 3: "\<exists>same cross. adj ! (layer_start_idx s ! i + k) = same @ cross \<and>
        (\<forall>x \<in> set same. layer_start_idx s ! i \<le> x \<and>
                          x < layer_start_idx s ! i + length (ls ! i)) \<and>
        (\<forall>x \<in> set cross. \<exists>j. i < j \<and> j < length ls \<and> layer_start_idx s ! j \<le> x \<and>
                          x < layer_start_idx s ! j + length (ls ! j))"
  proof -
    from row_ranges [OF assms(3,4), of r1 r2] obtain same cross where
      a: "adj ! (start_of ls i + k) = same @ cross" and
      s: "\<forall>x \<in> set same. start_of ls i \<le> x \<and> x < start_of ls i + length (ls ! i)" and
      c: "\<forall>x \<in> set cross. \<exists>j. i < j \<and> j < length ls \<and> start_of ls j \<le> x \<and>
                          x < start_of ls j + length (ls ! j)"
      unfolding adj by blast
    have c': "\<forall>x \<in> set cross. \<exists>j. i < j \<and> j < length ls \<and> layer_start_idx s ! j \<le> x \<and>
                          x < layer_start_idx s ! j + length (ls ! j)"
    proof
      fix x assume "x \<in> set cross"
      with c obtain j where j: "i < j \<and> j < length ls \<and> start_of ls j \<le> x \<and>
            x < start_of ls j + length (ls ! j)" by blast
      then have "i < j \<and> j < length ls \<and> layer_start_idx s ! j \<le> x \<and>
            x < layer_start_idx s ! j + length (ls ! j)" by (simp add: st)
      then show "\<exists>j. i < j \<and> j < length ls \<and> layer_start_idx s ! j \<le> x \<and>
            x < layer_start_idx s ! j + length (ls ! j)" ..
    qed
    from a s c' show ?thesis
      using assms(3) by (auto simp: st)
  qed
  have 4: "\<forall>g < length adj. \<forall>x \<in> set (adj ! g). x < length adj"
    using adjacency_entries [of _ ls _ r1 r2] by (simp add: adj)
  from 1 2 3 4 show ?thesis by (intro conjI)
qed

theorem neighbour_indices_valid_witness:
  "init example_layers = Inr example_state \<and>
   cluster_all_layers example_state 1 1 = Inr (example_adj, example_state1) \<and>
   (2::nat) < length example_layers \<and> (1::nat) < length (example_layers ! 2) \<and>
   length example_adj = length (layers_combined example_state) \<and>
   layer_start_idx example_state ! 2 + 1 < length example_adj"
  using neighbour_indices_valid [OF example_init example_cluster, of 2 1]
    example_init example_cluster
  by (simp add: example_layers_def)

end
